theory Spec2Isabelle
  imports Main "HOL-Library.Sublist"
begin

section \<open>JavaScript values\<close>

text \<open>
  The application (\<^verbatim>\<open>App.tsx\<close>) handles untyped JSON: the consent cookie is parsed with
  \<^verbatim>\<open>JSON.parse\<close>, the three remote answers with \<^verbatim>\<open>response.json()\<close>, and the React state
  cells start as \<^verbatim>\<open>{} as PrivacyNotice\<close>. Values are therefore modelled as one datatype,
  with \<^verbatim>\<open>undefined\<close> as a value of its own. Strings are lists of 8-bit characters: the
  model covers JavaScript strings whose code units are below 256, and numbers are the
  integers of magnitude at most \<open>2 ^ 53\<close>. A text that denotes anything else (a fraction,
  an escape or percent sequence for a code point from 256 on) is answered by the error
  \<open>Unrepresentable\<close>: the model declines, and no theorem below speaks about such a text.
\<close>

datatype js_error = TypeError | SyntaxError | URIError | NetworkError | Unrepresentable

datatype json =
    JUndefined
  | JNull
  | JBool bool
  | JNum int
  | JStr string
  | JArr "json list"
  | JObj "(string \<times> json) list"

text \<open>Truthiness, as \<^verbatim>\<open>if (x)\<close>, \<^verbatim>\<open>x && y\<close> and \<^verbatim>\<open>!x\<close> read a value.\<close>

fun truthy :: "json \<Rightarrow> bool" where
  "truthy JUndefined = False"
| "truthy JNull = False"
| "truthy (JBool b) = b"
| "truthy (JNum n) = (n \<noteq> 0)"
| "truthy (JStr s) = (s \<noteq> [])"
| "truthy (JArr xs) = True"
| "truthy (JObj kvs) = True"

definition nullish :: "json \<Rightarrow> bool" where
  "nullish j = (j = JUndefined \<or> j = JNull)"

text \<open>
  \<^verbatim>\<open>x.k\<close> for the member names the source reads (none of them is a member of a primitive,
  of an array or of \<^verbatim>\<open>Object.prototype\<close>): a \<^verbatim>\<open>TypeError\<close> on \<^verbatim>\<open>undefined\<close> and \<^verbatim>\<open>null\<close>,
  the own property of an object, \<^verbatim>\<open>undefined\<close> everywhere else.
\<close>

fun member :: "json \<Rightarrow> string \<Rightarrow> js_error + json" where
  "member JUndefined k = Inl TypeError"
| "member JNull k = Inl TypeError"
| "member (JObj kvs) k = Inr (case map_of kvs k of None \<Rightarrow> JUndefined | Some v \<Rightarrow> v)"
| "member (JBool b) k = Inr JUndefined"
| "member (JNum n) k = Inr JUndefined"
| "member (JStr s) k = Inr JUndefined"
| "member (JArr xs) k = Inr JUndefined"

text \<open>\<^verbatim>\<open>x?.k\<close>: \<^verbatim>\<open>undefined\<close> when \<^verbatim>\<open>x\<close> is nullish.\<close>

definition opt_member :: "json \<Rightarrow> string \<Rightarrow> json" where
  "opt_member j k = (case member j k of Inl e \<Rightarrow> JUndefined | Inr v \<Rightarrow> v)"

text \<open>\<^verbatim>\<open>x[0]\<close>.\<close>

fun index0 :: "json \<Rightarrow> js_error + json" where
  "index0 JUndefined = Inl TypeError"
| "index0 JNull = Inl TypeError"
| "index0 (JArr xs) = Inr (case xs of [] \<Rightarrow> JUndefined | x # _ \<Rightarrow> x)"
| "index0 (JStr s) = Inr (case s of [] \<Rightarrow> JUndefined | c # _ \<Rightarrow> JStr [c])"
| "index0 (JObj kvs) = Inr (case map_of kvs ''0'' of None \<Rightarrow> JUndefined | Some v \<Rightarrow> v)"
| "index0 (JBool b) = Inr JUndefined"
| "index0 (JNum n) = Inr JUndefined"

section \<open>Strings\<close>

definition is_digit :: "char \<Rightarrow> bool" where
  "is_digit c = (48 \<le> (of_char c :: nat) \<and> (of_char c :: nat) \<le> 57)"

definition digit_val :: "char \<Rightarrow> int" where
  "digit_val c = of_char c - 48"

definition toLowerCase_char :: "char \<Rightarrow> char" where
  "toLowerCase_char c =
     (let n = (of_char c :: nat)
      in if (65 \<le> n \<and> n \<le> 90) \<or> (192 \<le> n \<and> n \<le> 222 \<and> n \<noteq> 215)
         then char_of (n + 32) else c)"

definition toLowerCase :: "string \<Rightarrow> string" where
  "toLowerCase s = map toLowerCase_char s"

text \<open>
  \<^verbatim>\<open>s.replace(pat, rep)\<close> with a string pattern: the first occurrence only. (The
  replacement \<^verbatim>\<open>"_"\<close> of the source has no \<^verbatim>\<open>$\<close> pattern.)
\<close>

fun String_replace :: "string \<Rightarrow> string \<Rightarrow> string \<Rightarrow> string" where
  "String_replace pat rep [] = (if pat = [] then rep else [])"
| "String_replace pat rep (c # cs) =
     (if prefix pat (c # cs) then rep @ drop (length pat) (c # cs)
      else c # String_replace pat rep cs)"

definition endsWith :: "string \<Rightarrow> string \<Rightarrow> bool" where
  "endsWith s suf = (length suf \<le> length s \<and> drop (length s - length suf) s = suf)"

text \<open>
  \<^verbatim>\<open>s.split(sep)\<close>: the pieces between the occurrences of \<open>sep\<close>, found from the left
  and not overlapping. \<open>skip\<close> counts the characters of a separator still to pass.
\<close>

fun split_from :: "string \<Rightarrow> nat \<Rightarrow> string \<Rightarrow> string \<Rightarrow> string list" where
  "split_from sep skip acc [] = [rev acc]"
| "split_from sep skip acc (c # cs) =
     (if 0 < skip then split_from sep (skip - 1) acc cs
      else if prefix sep (c # cs) then rev acc # split_from sep (length sep - 1) [] cs
      else split_from sep 0 (c # acc) cs)"

definition String_split :: "string \<Rightarrow> string \<Rightarrow> string list" where
  "String_split sep s = (if sep = [] then map (\<lambda>c. [c]) s else split_from sep 0 [] s)"

fun join :: "'a list \<Rightarrow> 'a list list \<Rightarrow> 'a list" where
  "join sep [] = []"
| "join sep [x] = x"
| "join sep (x # y # ys) = x @ sep @ join sep (y # ys)"

section \<open>JSON text\<close>

subsection \<open>\<^verbatim>\<open>JSON.stringify\<close>\<close>

definition hex_lower :: "nat \<Rightarrow> char" where
  "hex_lower n = ''0123456789abcdef'' ! n"

definition hex_upper :: "nat \<Rightarrow> char" where
  "hex_upper n = ''0123456789ABCDEF'' ! n"

definition hex_value :: "char \<Rightarrow> nat option" where
  "hex_value c =
     (let n = (of_char c :: nat)
      in if 48 \<le> n \<and> n \<le> 57 then Some (n - 48)
         else if 65 \<le> n \<and> n \<le> 70 then Some (n - 55)
         else if 97 \<le> n \<and> n \<le> 102 then Some (n - 87)
         else None)"

definition quote_char :: "char \<Rightarrow> string" where
  "quote_char c =
     (let n = (of_char c :: nat)
      in if n = 34 then [CHR 0x5C, CHR 0x22]
         else if n = 92 then [CHR 0x5C, CHR 0x5C]
         else if n = 8 then [CHR 0x5C, CHR ''b'']
         else if n = 12 then [CHR 0x5C, CHR ''f'']
         else if n = 10 then [CHR 0x5C, CHR ''n'']
         else if n = 13 then [CHR 0x5C, CHR ''r'']
         else if n = 9 then [CHR 0x5C, CHR ''t'']
         else if n < 32 then
           [CHR 0x5C, CHR ''u'', CHR ''0'', CHR ''0'', hex_lower (n div 16), hex_lower (n mod 16)]
         else [c])"

definition QuoteJSONString :: "string \<Rightarrow> string" where
  "QuoteJSONString s = CHR 0x22 # concat (map quote_char s) @ [CHR 0x22]"

fun decimal :: "nat \<Rightarrow> string" where
  "decimal n = (if n < 10 then [char_of (48 + n)] else decimal (n div 10) @ [char_of (48 + n mod 10)])"

definition number_text :: "int \<Rightarrow> string" where
  "number_text n = (if n < 0 then CHR ''-'' # decimal (nat (- n)) else decimal (nat n))"

text \<open>
  An \<^verbatim>\<open>undefined\<close> element of an array is written \<^verbatim>\<open>null\<close>, an \<^verbatim>\<open>undefined\<close> member of
  an object is left out. The source applies \<^verbatim>\<open>JSON.stringify\<close> to objects only.
\<close>

fun JSON_stringify :: "json \<Rightarrow> string"
  and stringify_elements :: "json list \<Rightarrow> string list"
  and stringify_members :: "(string \<times> json) list \<Rightarrow> string list"
where
  "JSON_stringify JUndefined = ''null''"
| "JSON_stringify JNull = ''null''"
| "JSON_stringify (JBool b) = (if b then ''true'' else ''false'')"
| "JSON_stringify (JNum n) = number_text n"
| "JSON_stringify (JStr s) = QuoteJSONString s"
| "JSON_stringify (JArr xs) = ''['' @ join '','' (stringify_elements xs) @ '']''"
| "JSON_stringify (JObj kvs) = ''{'' @ join '','' (stringify_members kvs) @ ''}''"
| "stringify_elements [] = []"
| "stringify_elements (x # xs) = JSON_stringify x # stringify_elements xs"
| "stringify_members [] = []"
| "stringify_members ((k, v) # kvs) =
     (if v = JUndefined then stringify_members kvs
      else (QuoteJSONString k @ '':'' @ JSON_stringify v) # stringify_members kvs)"

subsection \<open>\<^verbatim>\<open>JSON.parse\<close>: the tokens\<close>

datatype token =
  TLBrace | TRBrace | TLBrack | TRBrack | TColon | TComma
  | TStr string | TNum int | TTrue | TFalse | TNull

definition simple_escape :: "char \<Rightarrow> char option" where
  "simple_escape e =
     (if e = CHR 0x22 then Some (CHR 0x22)
      else if e = CHR 0x5C then Some (CHR 0x5C)
      else if e = CHR ''/'' then Some (CHR ''/'')
      else if e = CHR ''b'' then Some (char_of (8 :: nat))
      else if e = CHR ''f'' then Some (char_of (12 :: nat))
      else if e = CHR ''n'' then Some (char_of (10 :: nat))
      else if e = CHR ''r'' then Some (char_of (13 :: nat))
      else if e = CHR ''t'' then Some (char_of (9 :: nat))
      else None)"

definition unicode_escape :: "char \<Rightarrow> char \<Rightarrow> char \<Rightarrow> char \<Rightarrow> js_error + char" where
  "unicode_escape a b c d =
     (case (hex_value a, hex_value b, hex_value c, hex_value d) of
        (Some x, Some y, Some z, Some w) \<Rightarrow>
          (let n = ((x * 16 + y) * 16 + z) * 16 + w
           in if n < 256 then Inr (char_of n) else Inl Unrepresentable)
      | _ \<Rightarrow> Inl SyntaxError)"

text \<open>The characters of a string literal, after its opening quote, and the text after it.\<close>

fun lex_string :: "string \<Rightarrow> js_error + (string \<times> string)" where
  "lex_string [] = Inl SyntaxError"
| "lex_string (c # cs) =
     (if c = CHR 0x22 then Inr ([], cs)
      else if c = CHR 0x5C then
        (case cs of
           [] \<Rightarrow> Inl SyntaxError
         | e # cs1 \<Rightarrow>
             if e = CHR ''u'' then
               (case cs1 of
                  h1 # h2 # h3 # h4 # cs2 \<Rightarrow>
                    (case unicode_escape h1 h2 h3 h4 of
                       Inl err \<Rightarrow> Inl err
                     | Inr ch \<Rightarrow>
                         (case lex_string cs2 of
                            Inl err \<Rightarrow> Inl err
                          | Inr (s, rest) \<Rightarrow> Inr (ch # s, rest)))
                | _ \<Rightarrow> Inl SyntaxError)
             else
               (case simple_escape e of
                  None \<Rightarrow> Inl SyntaxError
                | Some ch \<Rightarrow>
                    (case lex_string cs1 of
                       Inl err \<Rightarrow> Inl err
                     | Inr (s, rest) \<Rightarrow> Inr (ch # s, rest))))
      else if (of_char c :: nat) < 32 then Inl SyntaxError
      else
        (case lex_string cs of
           Inl err \<Rightarrow> Inl err
         | Inr (s, rest) \<Rightarrow> Inr (c # s, rest)))"

fun digits_value :: "int \<Rightarrow> string \<Rightarrow> int \<times> string" where
  "digits_value acc [] = (acc, [])"
| "digits_value acc (c # cs) =
     (if is_digit c then digits_value (acc * 10 + digit_val c) cs else (acc, c # cs))"

text \<open>
  A number literal: an optional sign and the integer part. A fraction or an exponent after
  it, or a magnitude above \<open>2 ^ 53\<close>, is outside the model.
\<close>

definition lex_number :: "string \<Rightarrow> js_error + (int \<times> string)" where
  "lex_number s =
     (let neg = (case s of [] \<Rightarrow> False | c # _ \<Rightarrow> c = CHR ''-'');
          s1 = (if neg then tl s else s)
      in case s1 of
           [] \<Rightarrow> Inl SyntaxError
         | d # ds \<Rightarrow>
             if \<not> is_digit d then Inl SyntaxError
             else
               (let (n, rest) = (if d = CHR ''0'' then (0, ds) else digits_value 0 s1)
                in if (case rest of [] \<Rightarrow> False
                        | r # _ \<Rightarrow> r = CHR ''.'' \<or> r = CHR ''e'' \<or> r = CHR ''E'')
                   then Inl Unrepresentable
                   else if 9007199254740992 < n then Inl Unrepresentable
                   else Inr (if neg then - n else n, rest)))"

definition is_ws :: "char \<Rightarrow> bool" where
  "is_ws c = ((of_char c :: nat) \<in> {32, 9, 10, 13})"

definition cons_token :: "token \<Rightarrow> js_error + token list \<Rightarrow> js_error + token list" where
  "cons_token t r = (case r of Inl e \<Rightarrow> Inl e | Inr ts \<Rightarrow> Inr (t # ts))"

lemma lex_string_shorter: "lex_string s = Inr (x, r) \<Longrightarrow> length r < length s"
proof (induction s arbitrary: x r rule: lex_string.induct)
  case 1
  then show ?case by simp
next
  case (2 c cs)
  show ?case
  proof (cases "c = CHR 0x22")
    case True
    with "2.prems" show ?thesis by simp
  next
    case nq: False
    show ?thesis
    proof (cases "c = CHR 0x5C")
      case False
      with nq "2.prems" "2.IH"(3) show ?thesis
        by (fastforce split: if_splits sum.splits prod.splits)
    next
      case bs: True
      show ?thesis
      proof (cases cs)
        case Nil
        with nq bs "2.prems" show ?thesis by simp
      next
        case (Cons e cs1)
        show ?thesis
        proof (cases "e = CHR ''u''")
          case False
          with nq bs Cons "2.prems" "2.IH"(2) show ?thesis
            by (fastforce split: option.splits sum.splits prod.splits)
        next
          case True
          with nq bs Cons "2.prems" "2.IH"(1) show ?thesis
            by (fastforce split: list.splits sum.splits prod.splits)
        qed
      qed
    qed
  qed
qed

lemma digits_value_shorter: "digits_value acc s = (n, r) \<Longrightarrow> length r \<le> length s"
  by (induction acc s rule: digits_value.induct) (auto split: if_splits)

lemma lex_number_shorter: "lex_number s = Inr (n, r) \<Longrightarrow> length r < length s"
  by (cases s; cases "tl s")
     (auto simp: lex_number_def Let_def split: if_splits list.splits prod.splits
           dest: digits_value_shorter)

function lex :: "string \<Rightarrow> js_error + token list" where
  "lex [] = Inr []"
| "lex (c # cs) =
     (if is_ws c then lex cs
      else if c = CHR ''{'' then cons_token TLBrace (lex cs)
      else if c = CHR ''}'' then cons_token TRBrace (lex cs)
      else if c = CHR ''['' then cons_token TLBrack (lex cs)
      else if c = CHR '']'' then cons_token TRBrack (lex cs)
      else if c = CHR '':'' then cons_token TColon (lex cs)
      else if c = CHR '','' then cons_token TComma (lex cs)
      else if c = CHR 0x22 then
        (case lex_string cs of
           Inl e \<Rightarrow> Inl e
         | Inr (s, rest) \<Rightarrow> cons_token (TStr s) (lex rest))
      else if c = CHR ''-'' \<or> is_digit c then
        (case lex_number (c # cs) of
           Inl e \<Rightarrow> Inl e
         | Inr (n, rest) \<Rightarrow> cons_token (TNum n) (lex rest))
      else if prefix ''true'' (c # cs) then cons_token TTrue (lex (drop 3 cs))
      else if prefix ''false'' (c # cs) then cons_token TFalse (lex (drop 4 cs))
      else if prefix ''null'' (c # cs) then cons_token TNull (lex (drop 3 cs))
      else Inl SyntaxError)"
  by pat_completeness auto
termination lex
  apply (relation "measure length")
  apply simp_all
  subgoal for c cs x2 x y
    using lex_string_shorter[of cs x y] by simp
  subgoal for c cs x2 x y
    using lex_number_shorter[of "c # cs" x y] by simp
  done

subsection \<open>\<^verbatim>\<open>JSON.parse\<close>: the grammar\<close>

definition is_array_index :: "string \<Rightarrow> bool" where
  "is_array_index k =
     (k \<noteq> [] \<and> list_all is_digit k \<and> (k = ''0'' \<or> hd k \<noteq> CHR ''0'')
      \<and> fst (digits_value 0 k) < 4294967295)"

text \<open>
  Defining a property of an object. The members are kept in the order in which
  JavaScript enumerates them: the array indices first, ascending, then the other names
  in the order of their creation. A name that exists keeps its place.
\<close>

fun insert_index :: "string \<Rightarrow> json \<Rightarrow> (string \<times> json) list \<Rightarrow> (string \<times> json) list" where
  "insert_index k v [] = [(k, v)]"
| "insert_index k v ((k1, v1) # kvs) =
     (if is_array_index k1 \<and> fst (digits_value 0 k1) < fst (digits_value 0 k)
      then (k1, v1) # insert_index k v kvs
      else (k, v) # (k1, v1) # kvs)"

definition obj_put :: "string \<Rightarrow> json \<Rightarrow> (string \<times> json) list \<Rightarrow> (string \<times> json) list" where
  "obj_put k v kvs =
     (if map_of kvs k \<noteq> None then map (\<lambda>(k1, v1). if k1 = k then (k1, v) else (k1, v1)) kvs
      else if is_array_index k then insert_index k v kvs
      else kvs @ [(k, v)])"

text \<open>
  The parser is a pushdown automaton over the tokens: a frame for every array (its
  elements so far, last first) and every object (its members so far, and the name that
  waits for its value) that is still open.
\<close>

datatype frame =
    FArr "json list"
  | FObj "(string \<times> json) list"
  | FKey "(string \<times> json) list" string

datatype mode = MValue | MFirst | MKeyOrClose | MKey | MColon | MAfter | MDone json

fun deliver :: "json \<Rightarrow> frame list \<Rightarrow> js_error + (mode \<times> frame list)" where
  "deliver v [] = Inr (MDone v, [])"
| "deliver v (FArr xs # st) = Inr (MAfter, FArr (v # xs) # st)"
| "deliver v (FKey kvs k # st) = Inr (MAfter, FObj (obj_put k v kvs) # st)"
| "deliver v (FObj kvs # st) = Inl SyntaxError"

fun value_start :: "token \<Rightarrow> frame list \<Rightarrow> js_error + (mode \<times> frame list)" where
  "value_start (TStr s) st = deliver (JStr s) st"
| "value_start (TNum n) st = deliver (JNum n) st"
| "value_start TTrue st = deliver (JBool True) st"
| "value_start TFalse st = deliver (JBool False) st"
| "value_start TNull st = deliver JNull st"
| "value_start TLBrack st = Inr (MFirst, FArr [] # st)"
| "value_start TLBrace st = Inr (MKeyOrClose, FObj [] # st)"
| "value_start TRBrack st = Inl SyntaxError"
| "value_start TRBrace st = Inl SyntaxError"
| "value_start TColon st = Inl SyntaxError"
| "value_start TComma st = Inl SyntaxError"

fun step :: "mode \<Rightarrow> frame list \<Rightarrow> token \<Rightarrow> js_error + (mode \<times> frame list)" where
  "step MValue st t = value_start t st"
| "step MFirst st t =
     (if t = TRBrack then (case st of FArr xs # st1 \<Rightarrow> deliver (JArr (rev xs)) st1
                                    | _ \<Rightarrow> Inl SyntaxError)
      else value_start t st)"
| "step MKeyOrClose st t =
     (case st of
        FObj kvs # st1 \<Rightarrow>
          (case t of TStr k \<Rightarrow> Inr (MColon, FKey kvs k # st1)
                   | TRBrace \<Rightarrow> deliver (JObj kvs) st1
                   | _ \<Rightarrow> Inl SyntaxError)
      | _ \<Rightarrow> Inl SyntaxError)"
| "step MKey st t =
     (case st of
        FObj kvs # st1 \<Rightarrow>
          (case t of TStr k \<Rightarrow> Inr (MColon, FKey kvs k # st1) | _ \<Rightarrow> Inl SyntaxError)
      | _ \<Rightarrow> Inl SyntaxError)"
| "step MColon st t = (if t = TColon then Inr (MValue, st) else Inl SyntaxError)"
| "step MAfter st t =
     (case st of
        FArr xs # st1 \<Rightarrow>
          (case t of TComma \<Rightarrow> Inr (MValue, st)
                   | TRBrack \<Rightarrow> deliver (JArr (rev xs)) st1
                   | _ \<Rightarrow> Inl SyntaxError)
      | FObj kvs # st1 \<Rightarrow>
          (case t of TComma \<Rightarrow> Inr (MKey, st)
                   | TRBrace \<Rightarrow> deliver (JObj kvs) st1
                   | _ \<Rightarrow> Inl SyntaxError)
      | _ \<Rightarrow> Inl SyntaxError)"
| "step (MDone v) st t = Inl SyntaxError"

fun parse_tokens :: "mode \<Rightarrow> frame list \<Rightarrow> token list \<Rightarrow> js_error + json" where
  "parse_tokens m st [] = (case m of MDone v \<Rightarrow> Inr v | _ \<Rightarrow> Inl SyntaxError)"
| "parse_tokens m st (t # ts) =
     (case step m st t of Inl e \<Rightarrow> Inl e | Inr (m1, st1) \<Rightarrow> parse_tokens m1 st1 ts)"

definition JSON_parse :: "string \<Rightarrow> js_error + json" where
  "JSON_parse s = (case lex s of Inl e \<Rightarrow> Inl e | Inr ts \<Rightarrow> parse_tokens MValue [] ts)"

section \<open>Percent encoding\<close>

definition unreserved :: "char \<Rightarrow> bool" where
  "unreserved c =
     (let n = (of_char c :: nat)
      in (48 \<le> n \<and> n \<le> 57) \<or> (65 \<le> n \<and> n \<le> 90) \<or> (97 \<le> n \<and> n \<le> 122)
         \<or> c \<in> set ''-_.!~*'' \<or> n = 39 \<or> c \<in> set ''()'')"

definition percent :: "nat \<Rightarrow> string" where
  "percent n = [CHR ''%'', hex_upper (n div 16), hex_upper (n mod 16)]"

text \<open>
  \<^verbatim>\<open>encodeURIComponent\<close>: the unreserved characters stay, every other one becomes the
  percent-encoded octets of its UTF-8 form (two octets for the code units from 128 on).
\<close>

definition encode_char :: "char \<Rightarrow> string" where
  "encode_char c =
     (let n = (of_char c :: nat)
      in if unreserved c then [c]
         else if n < 128 then percent n
         else percent (192 + n div 64) @ percent (128 + n mod 64))"

definition encodeURIComponent :: "string \<Rightarrow> string" where
  "encodeURIComponent s = concat (map encode_char s)"

definition percent_octet :: "string \<Rightarrow> (nat \<times> string) option" where
  "percent_octet s =
     (case s of
        p # h1 # h2 # rest \<Rightarrow>
          (if p = CHR ''%'' then
             (case (hex_value h1, hex_value h2) of
                (Some a, Some b) \<Rightarrow> Some (a * 16 + b, rest)
              | _ \<Rightarrow> None)
           else None)
      | _ \<Rightarrow> None)"

lemma percent_octet_shorter: "percent_octet s = Some (n, r) \<Longrightarrow> length r < length s"
  by (auto simp: percent_octet_def split: list.splits if_splits option.splits)

definition cons_char :: "char \<Rightarrow> js_error + string \<Rightarrow> js_error + string" where
  "cons_char c r = (case r of Inl e \<Rightarrow> Inl e | Inr s \<Rightarrow> Inr (c # s))"

text \<open>
  \<^verbatim>\<open>decodeURIComponent\<close>: a \<^verbatim>\<open>URIError\<close> for a \<^verbatim>\<open>%\<close> that does not start an octet and for
  octets that are not UTF-8. The lead octets \<open>C2\<close> and \<open>C3\<close> give the code units from 128
  to 255; the lead octets of longer forms are outside the model.
\<close>

function decodeURIComponent :: "string \<Rightarrow> js_error + string" where
  "decodeURIComponent [] = Inr []"
| "decodeURIComponent (c # cs) =
     (if c \<noteq> CHR ''%'' then cons_char c (decodeURIComponent cs)
      else
        (case percent_octet (c # cs) of
           None \<Rightarrow> Inl URIError
         | Some (b, rest) \<Rightarrow>
             if b < 128 then cons_char (char_of b) (decodeURIComponent rest)
             else if b = 194 \<or> b = 195 then
               (case percent_octet rest of
                  None \<Rightarrow> Inl URIError
                | Some (b2, rest2) \<Rightarrow>
                    if 128 \<le> b2 \<and> b2 < 192
                    then cons_char (char_of ((b - 192) * 64 + (b2 - 128))) (decodeURIComponent rest2)
                    else Inl URIError)
             else if 196 \<le> b \<and> b \<le> 244 then Inl Unrepresentable
             else Inl URIError))"
  by pat_completeness auto
termination decodeURIComponent
  apply (relation "measure length")
  apply simp_all
  subgoal for c cs x2 x y
    using percent_octet_shorter[of "c # cs" x y] by simp
  subgoal for c cs x2 x y x2a xa ya
    using percent_octet_shorter[of "c # cs" x y] percent_octet_shorter[of y xa ya] by simp
  done

section \<open>The cookie jar\<close>

text \<open>
  \<^verbatim>\<open>document.cookie\<close> of a page whose cookies all have the path \<^verbatim>\<open>/\<close>: the jar is the list
  of the pairs in the order of their creation. Reading it gives \<^verbatim>\<open>name=value\<close> pairs joined
  by \<^verbatim>\<open>"; "\<close>. Assigning \<^verbatim>\<open>name=value; path=/; max-age=31536000\<close> stores the pair that stands
  before the first \<^verbatim>\<open>;\<close> (name and value trimmed), in the place of a pair of that name or
  at the end. The attributes and the size limit of a browser are not modelled: the jar
  accepts every pair and keeps it for the session.
\<close>

type_synonym cookie_jar = "(string \<times> string) list"

definition document_cookie :: "cookie_jar \<Rightarrow> string" where
  "document_cookie jar = join ''; '' (map (\<lambda>(k, v). if k = [] then v else k @ ''='' @ v) jar)"

definition trim :: "string \<Rightarrow> string" where
  "trim s = rev (dropWhile (\<lambda>c. c = CHR '' '' \<or> (of_char c :: nat) = 9)
              (rev (dropWhile (\<lambda>c. c = CHR '' '' \<or> (of_char c :: nat) = 9) s)))"

fun jar_put :: "string \<Rightarrow> string \<Rightarrow> cookie_jar \<Rightarrow> cookie_jar" where
  "jar_put k v [] = [(k, v)]"
| "jar_put k v ((k1, v1) # jar) = (if k1 = k then (k, v) # jar else (k1, v1) # jar_put k v jar)"

definition set_document_cookie :: "string \<Rightarrow> cookie_jar \<Rightarrow> cookie_jar" where
  "set_document_cookie s jar =
     (let pair = takeWhile (\<lambda>c. c \<noteq> CHR '';'') s
      in if CHR ''='' \<in> set pair
         then jar_put (trim (takeWhile (\<lambda>c. c \<noteq> CHR ''='') pair))
                      (trim (drop 1 (dropWhile (\<lambda>c. c \<noteq> CHR ''='') pair))) jar
         else jar_put [] (trim pair) jar)"

section \<open>The consent cookie\<close>

text \<open>The functions of \<^verbatim>\<open>App.tsx\<close> in its version with \<^verbatim>\<open>encodeCookie\<close> and \<^verbatim>\<open>decodeCookie\<close>.\<close>

definition encodeCookie :: "string \<Rightarrow> string" where
  "encodeCookie v = encodeURIComponent v"

definition decodeCookie :: "string \<Rightarrow> js_error + string" where
  "decodeCookie v = decodeURIComponent v"

text \<open>
  \<^verbatim>\<open>getCookie(name)\<close>: \<open>None\<close> is the \<^verbatim>\<open>undefined\<close> of the source, returned when the split does
  not give two parts. \<^verbatim>\<open>parts.pop()?.split(";")[0] || ""\<close> is the text of the last part up
  to its first \<^verbatim>\<open>;\<close>.
\<close>

definition getCookie :: "string \<Rightarrow> cookie_jar \<Rightarrow> js_error + string option" where
  "getCookie nm jar =
     (let v = ''; '' @ document_cookie jar;
          parts = String_split (''; '' @ nm @ ''='') v
      in if length parts = 2 then
           (case decodeCookie (case String_split '';'' (last parts) of [] \<Rightarrow> [] | x # _ \<Rightarrow> x) of
              Inl e \<Rightarrow> Inl e
            | Inr s \<Rightarrow> Inr (Some s))
         else Inr None)"

text \<open>
  \<^verbatim>\<open>x.a.b = v\<close> in strict mode, and the value of \<^verbatim>\<open>x\<close> after it: a \<^verbatim>\<open>TypeError\<close> when
  \<^verbatim>\<open>x.a\<close> is nullish or a primitive; a named property set on an array is not part of
  what \<^verbatim>\<open>JSON.stringify\<close> writes.
\<close>

definition assign_member :: "json \<Rightarrow> string \<Rightarrow> string \<Rightarrow> json \<Rightarrow> js_error + json" where
  "assign_member x a b v =
     (case member x a of
        Inl e \<Rightarrow> Inl e
      | Inr t \<Rightarrow>
          (case t of
             JObj kvs \<Rightarrow>
               (case x of JObj members \<Rightarrow> Inr (JObj (obj_put a (JObj (obj_put b v kvs)) members))
                        | _ \<Rightarrow> Inl TypeError)
           | JArr xs \<Rightarrow> Inr x
           | _ \<Rightarrow> Inl TypeError))"

definition updateConsentCookie :: "bool \<Rightarrow> cookie_jar \<Rightarrow> js_error + cookie_jar" where
  "updateConsentCookie formData_consent jar =
     (case getCookie ''fides_consent'' jar of
        Inl e \<Rightarrow> Inl e
      | Inr consentCookieData \<Rightarrow>
          (case consentCookieData of
             None \<Rightarrow> Inr jar
           | Some text \<Rightarrow>
               if text = [] then Inr jar
               else
                 (case JSON_parse text of
                    Inl e \<Rightarrow> Inl e
                  | Inr parsedData \<Rightarrow>
                      (case assign_member parsedData ''consent'' ''advertising_and_email_signup''
                              (JBool formData_consent) of
                         Inl e \<Rightarrow> Inl e
                       | Inr parsedData1 \<Rightarrow>
                           Inr (set_document_cookie
                                  (''fides_consent='' @ encodeCookie (JSON_stringify parsedData1)
                                   @ ''; path=/; max-age=31536000'') jar)))))"

text \<open>
  The object the source builds when there is no cookie: \<open>uuid\<close> is what \<^verbatim>\<open>uuidv4()\<close>
  returned, \<open>now1\<close> and \<open>now2\<close> what the two calls of \<^verbatim>\<open>new Date().toISOString()\<close> returned.
\<close>

definition consentObject :: "string \<Rightarrow> string \<Rightarrow> string \<Rightarrow> json" where
  "consentObject uuid now1 now2 =
     JObj [(''consent'', JObj [(''advertising_and_email_signup'', JBool False)]),
           (''identity'', JObj [(''fides_user_device_id'', JStr uuid)]),
           (''fides_meta'', JObj [(''version'', JStr ''0.9.0''),
                                  (''createdAt'', JStr now1),
                                  (''updatedAt'', JStr now2)])]"

definition setOrCheckFidesConsentCookie ::
  "string \<Rightarrow> string \<Rightarrow> string \<Rightarrow> cookie_jar \<Rightarrow> js_error + (json \<times> cookie_jar)" where
  "setOrCheckFidesConsentCookie uuid now1 now2 jar =
     (case getCookie ''fides_consent'' jar of
        Inl e \<Rightarrow> Inl e
      | Inr existingCookieValue \<Rightarrow>
          (case existingCookieValue of
             Some (c # cs) \<Rightarrow>
               (case JSON_parse (c # cs) of Inl e \<Rightarrow> Inl e | Inr j \<Rightarrow> Inr (j, jar))
           | _ \<Rightarrow>
               Inr (consentObject uuid now1 now2,
                    set_document_cookie
                      (''fides_consent'' @ ''='' @ JSON_stringify (consentObject uuid now1 now2)
                       @ ''; path=/; max-age=31536000'') jar)))"

section \<open>The application\<close>

text \<open>
  A request is the URL of a \<^verbatim>\<open>fetch\<close> and, for a \<^verbatim>\<open>PATCH\<close>, the text of its body. The remote
  side is any function from the number of requests issued so far and the request to what
  \<^verbatim>\<open>fetch\<close> gives: a rejected promise, or a response with its status and what
  \<^verbatim>\<open>response.json()\<close> yields.
\<close>

datatype request = GET string | PATCH string string

datatype fetched = Failed | Response nat "js_error + json"

type_synonym network = "nat \<Rightarrow> request \<Rightarrow> fetched"

record FormData =
  name :: string
  email :: string
  consent :: bool

record app =
  formData :: FormData
  deviceId :: json
  userGeo :: json
  privacyNotice :: json
  noticeServed :: json
  privacyExperience :: json
  cookies :: cookie_jar
  requests :: "request list"

definition LOCATION_ENDPOINT :: string where
  "LOCATION_ENDPOINT = ''https://cdn-api.ethyca.com/location''"

definition FIDES_API_ENDPOINT :: string where
  "FIDES_API_ENDPOINT = ''http://localhost:8080''"

definition initial :: "cookie_jar \<Rightarrow> app" where
  "initial jar =
     \<lparr>formData = \<lparr>name = [], email = [], consent = False\<rparr>,
      deviceId = JStr [], userGeo = JStr [],
      privacyNotice = JObj [], noticeServed = JObj [], privacyExperience = JObj [],
      cookies = jar, requests = []\<rparr>"

definition fetch :: "network \<Rightarrow> request \<Rightarrow> app \<Rightarrow> fetched \<times> app" where
  "fetch net r s = (net (length (requests s)) r, s\<lparr>requests := requests s @ [r]\<rparr>)"

text \<open>\<^verbatim>\<open>await (await fetch(...)).json()\<close>.\<close>

definition fetch_json :: "network \<Rightarrow> request \<Rightarrow> app \<Rightarrow> (js_error + json) \<times> app" where
  "fetch_json net r s =
     (case fetch net r s of
        (Failed, s1) \<Rightarrow> (Inl NetworkError, s1)
      | (Response status body, s1) \<Rightarrow> (body, s1))"

definition handleInputChange :: "bool \<Rightarrow> string \<Rightarrow> app \<Rightarrow> app" where
  "handleInputChange is_name v s =
     (if is_name then s\<lparr>formData := (formData s)\<lparr>name := v\<rparr>\<rparr>
      else s\<lparr>formData := (formData s)\<lparr>email := v\<rparr>\<rparr>)"

definition handleCheckboxChange :: "bool \<Rightarrow> app \<Rightarrow> app" where
  "handleCheckboxChange checked s = s\<lparr>formData := (formData s)\<lparr>consent := checked\<rparr>\<rparr>"

text \<open>The object \<^verbatim>\<open>bodyData\<close> of \<^verbatim>\<open>recordConsentOnServer\<close>.\<close>

definition bodyData :: "app \<Rightarrow> js_error + json" where
  "bodyData s =
     (case member (privacyNotice s) ''privacy_notice_history_id'' of
        Inl e \<Rightarrow> Inl e
      | Inr notice_history \<Rightarrow>
          (case member (noticeServed s) ''served_notice_history_id'' of
             Inl e \<Rightarrow> Inl e
           | Inr served_history \<Rightarrow>
               (case member (privacyExperience s) ''id'' of
                  Inl e \<Rightarrow> Inl e
                | Inr experience_id \<Rightarrow>
                    Inr (JObj
                      [(''browser_identity'', JObj [(''fides_user_device_id'', deviceId s)]),
                       (''preferences'',
                          JArr [JObj
                            [(''privacy_notice_history_id'', notice_history),
                             (''preference'',
                                JStr (if consent (formData s) then ''opt_in'' else ''opt_out'')),
                             (''served_notice_history_id'', served_history)]]),
                       (''privacy_experience_id'', experience_id),
                       (''user_geography'', userGeo s),
                       (''method'', JStr ''button'')]))))"

definition preferences_url :: string where
  "preferences_url = FIDES_API_ENDPOINT @ ''/api/v1/privacy-preferences''"

text \<open>
  An \<^verbatim>\<open>async\<close> function gives a promise: \<open>Inl\<close> when it is rejected, \<open>Inr\<close> when it is
  fulfilled. \<^verbatim>\<open>recordConsentOnServer\<close> awaits the \<^verbatim>\<open>fetch\<close> and does not look at the response.
\<close>

definition recordConsentOnServer :: "network \<Rightarrow> app \<Rightarrow> (js_error + unit) \<times> app" where
  "recordConsentOnServer net s =
     (case bodyData s of
        Inl e \<Rightarrow> (Inl e, s)
      | Inr body \<Rightarrow>
          (case fetch net (PATCH preferences_url (JSON_stringify body)) s of
             (Failed, s1) \<Rightarrow> (Inl NetworkError, s1)
           | (Response status answer, s1) \<Rightarrow> (Inr (), s1)))"

text \<open>
  \<^verbatim>\<open>handleSubmit\<close> calls \<^verbatim>\<open>updateConsentCookie()\<close>, whose exception rejects its promise, and
  then \<^verbatim>\<open>recordConsentOnServer()\<close> without \<^verbatim>\<open>await\<close>: the promise of that call is dropped.
\<close>

definition handleSubmit :: "network \<Rightarrow> app \<Rightarrow> (js_error + unit) \<times> app" where
  "handleSubmit net s =
     (case updateConsentCookie (consent (formData s)) (cookies s) of
        Inl e \<Rightarrow> (Inl e, s)
      | Inr jar \<Rightarrow> (Inr (), snd (recordConsentOnServer net (s\<lparr>cookies := jar\<rparr>))))"

subsection \<open>Startup\<close>

text \<open>\<^verbatim>\<open>notice.notice_key?.endsWith("signup")\<close>, the predicate given to \<^verbatim>\<open>find\<close>.\<close>

definition notice_matches :: "json \<Rightarrow> js_error + json" where
  "notice_matches notice =
     (case member notice ''notice_key'' of
        Inl e \<Rightarrow> Inl e
      | Inr key \<Rightarrow>
          if nullish key then Inr JUndefined
          else (case key of JStr k \<Rightarrow> Inr (JBool (endsWith k ''signup''))
                          | _ \<Rightarrow> Inl TypeError))"

fun find_notice :: "json list \<Rightarrow> js_error + json" where
  "find_notice [] = Inr JUndefined"
| "find_notice (x # xs) =
     (case notice_matches x of
        Inl e \<Rightarrow> Inl e
      | Inr b \<Rightarrow> if truthy b then Inr x else find_notice xs)"

text \<open>\<^verbatim>\<open>noticeData?.privacy_notices?.find(...)\<close>.\<close>

definition signUpNotice :: "json \<Rightarrow> js_error + json" where
  "signUpNotice noticeData =
     (if nullish noticeData then Inr JUndefined
      else
        (case member noticeData ''privacy_notices'' of
           Inl e \<Rightarrow> Inl e
         | Inr notices \<Rightarrow>
             if nullish notices then Inr JUndefined
             else (case notices of JArr xs \<Rightarrow> find_notice xs | _ \<Rightarrow> Inl TypeError)))"

definition noticesServedBody :: "json \<Rightarrow> json \<Rightarrow> json \<Rightarrow> json \<Rightarrow> js_error + json" where
  "noticesServedBody noticeData notice fidesDeviceId geo =
     (case member noticeData ''id'' of
        Inl e \<Rightarrow> Inl e
      | Inr experience_id \<Rightarrow>
          (case member notice ''privacy_notice_history_id'' of
             Inl e \<Rightarrow> Inl e
           | Inr notice_history \<Rightarrow>
               Inr (JObj
                 [(''acknowledge_mode'', JBool False),
                  (''browser_identity'', JObj [(''fides_user_device_id'', fidesDeviceId)]),
                  (''privacy_experience_id'', experience_id),
                  (''privacy_notice_history_ids'', JArr [notice_history]),
                  (''serving_component'', JStr ''overlay''),
                  (''user_geography'', geo)])))"

definition served_url :: string where
  "served_url = FIDES_API_ENDPOINT @ ''/api/v1/notices-served''"

text \<open>
  \<^verbatim>\<open>processNotices\<close>: the five state cells are set after the answer of \<^verbatim>\<open>notices-served\<close>
  has arrived; \<^verbatim>\<open>noticesServedResponse[0]\<close> is read between the second and the third.
\<close>

definition processNotices :: "network \<Rightarrow> json \<Rightarrow> json \<Rightarrow> json \<Rightarrow> app \<Rightarrow> (js_error + unit) \<times> app" where
  "processNotices net noticesData fidesDeviceId geo s =
     (case member noticesData ''items'' of
        Inl e \<Rightarrow> (Inl e, s)
      | Inr items \<Rightarrow>
      (case index0 items of
        Inl e \<Rightarrow> (Inl e, s)
      | Inr noticeData \<Rightarrow>
      (case signUpNotice noticeData of
        Inl e \<Rightarrow> (Inl e, s)
      | Inr notice \<Rightarrow>
      (case noticesServedBody noticeData notice fidesDeviceId geo of
        Inl e \<Rightarrow> (Inl e, s)
      | Inr body \<Rightarrow>
      (case fetch_json net (PATCH served_url (JSON_stringify body)) s of
        (Inl e, s1) \<Rightarrow> (Inl e, s1)
      | (Inr noticesServedResponse, s1) \<Rightarrow>
          (let s2 = s1\<lparr>privacyNotice := notice, deviceId := fidesDeviceId\<rparr>
           in case index0 noticesServedResponse of
                Inl e \<Rightarrow> (Inl e, s2)
              | Inr first \<Rightarrow>
                  (Inr (), s2\<lparr>noticeServed := first, userGeo := geo,
                               privacyExperience := noticeData\<rparr>)))))))"

definition experience_url :: "string \<Rightarrow> string" where
  "experience_url region =
     FIDES_API_ENDPOINT @ ''/api/v1/privacy-experience?show_disabled=true&region='' @ region
     @ ''&systems_applicable=false&page=1&size=50''"

definition fetchPrivacyExperiences :: "network \<Rightarrow> string \<Rightarrow> app \<Rightarrow> (js_error + json) \<times> app" where
  "fetchPrivacyExperiences net region s = fetch_json net (GET (experience_url region)) s"

text \<open>\<^verbatim>\<open>locationData?.location.toLowerCase().replace("-", "_")\<close>.\<close>

definition resolve_userGeo :: "json \<Rightarrow> js_error + json" where
  "resolve_userGeo locationData =
     (if nullish locationData then Inr JUndefined
      else
        (case member locationData ''location'' of
           Inl e \<Rightarrow> Inl e
         | Inr l \<Rightarrow>
             (case l of JStr loc \<Rightarrow> Inr (JStr (String_replace ''-'' ''_'' (toLowerCase loc)))
                      | _ \<Rightarrow> Inl TypeError)))"

text \<open>
  \<^verbatim>\<open>fetchRegionAndNotices\<close>: every exception up to the call of \<^verbatim>\<open>processNotices\<close> is caught
  and logged; \<^verbatim>\<open>processNotices\<close> is called without \<^verbatim>\<open>await\<close>, so its promise is dropped.
\<close>

definition fetchRegionAndNotices :: "network \<Rightarrow> json \<Rightarrow> app \<Rightarrow> app" where
  "fetchRegionAndNotices net fidesDeviceId s =
     (case fetch_json net (GET LOCATION_ENDPOINT) s of
        (Inl e, s1) \<Rightarrow> s1
      | (Inr locationData, s1) \<Rightarrow>
          (case resolve_userGeo locationData of
             Inl e \<Rightarrow> s1
           | Inr geo \<Rightarrow>
               (let region = opt_member locationData ''country''
                in if truthy region then
                     (case region of
                        JStr country \<Rightarrow>
                          (case fetchPrivacyExperiences net (toLowerCase country) s1 of
                             (Inl e, s2) \<Rightarrow> s2
                           | (Inr noticesData, s2) \<Rightarrow>
                               if truthy noticesData
                               then snd (processNotices net noticesData fidesDeviceId geo s2)
                               else s2)
                      | _ \<Rightarrow> s1)
                   else s1)))"

text \<open>
  The effect run once when the component is mounted. Its first two statements are
  outside every \<^verbatim>\<open>try\<close>: an exception there ends the effect.
\<close>

definition useEffect :: "string \<Rightarrow> string \<Rightarrow> string \<Rightarrow> network \<Rightarrow> app \<Rightarrow> js_error + app" where
  "useEffect uuid now1 now2 net s =
     (case setOrCheckFidesConsentCookie uuid now1 now2 (cookies s) of
        Inl e \<Rightarrow> Inl e
      | Inr (consentData, jar) \<Rightarrow>
          (case member consentData ''identity'' of
             Inl e \<Rightarrow> Inl e
           | Inr identity \<Rightarrow>
               (case member identity ''fides_user_device_id'' of
                  Inl e \<Rightarrow> Inl e
                | Inr fidesDeviceId \<Rightarrow>
                    Inr (fetchRegionAndNotices net fidesDeviceId (s\<lparr>cookies := jar\<rparr>)))))"

subsection \<open>The form\<close>

text \<open>
  \<^verbatim>\<open>disabled={!privacyNotice?.description}\<close> on the submit button; the checkbox is rendered
  under \<^verbatim>\<open>privacyNotice?.description &&\<close>. An event on a control that is disabled or not
  rendered does not reach its handler.
\<close>

definition disabled :: "app \<Rightarrow> bool" where
  "disabled s = (\<not> truthy (opt_member (privacyNotice s) ''description''))"

datatype event = Input bool string | Check bool | Submit

fun react :: "network \<Rightarrow> app \<Rightarrow> event \<Rightarrow> app" where
  "react net s (Input is_name v) = handleInputChange is_name v s"
| "react net s (Check b) = (if disabled s then s else handleCheckboxChange b s)"
| "react net s Submit = (if disabled s then s else snd (handleSubmit net s))"

text \<open>
  A session: the mount with its effect, then the events of the user. The state cells are
  set after the last \<^verbatim>\<open>await\<close> of the startup; until then the button is disabled
  and the box is not rendered, so an event that arrives earlier changes the name or the
  e-mail only.
\<close>

definition session ::
  "string \<Rightarrow> string \<Rightarrow> string \<Rightarrow> network \<Rightarrow> cookie_jar \<Rightarrow> event list \<Rightarrow> js_error + app" where
  "session uuid now1 now2 net jar evs =
     (case useEffect uuid now1 now2 net (initial jar) of
        Inl e \<Rightarrow> Inl e
      | Inr s \<Rightarrow> Inr (foldl (react net) s evs))"

section \<open>What the specification says, in its own words\<close>

text \<open>
  The notices of the declared type \<^verbatim>\<open>PrivacyNotice\<close> have a string \<^verbatim>\<open>notice_key\<close>; a notice
  whose key is missing or \<^verbatim>\<open>null\<close> is passed over by the optional call. The key of a notice
  "ends with the suffix" in the sense of \<^const>\<open>suffix\<close>. A region code is
  "separator-normalized" when every \<^verbatim>\<open>-\<close> of the lowercased location has become \<^verbatim>\<open>_\<close>.
\<close>

definition typed_notice :: "json \<Rightarrow> bool" where
  "typed_notice n =
     (case member n ''notice_key'' of
        Inr (JStr k) \<Rightarrow> True | Inr JNull \<Rightarrow> True | Inr JUndefined \<Rightarrow> True | _ \<Rightarrow> False)"

definition key_ends_with_signup :: "json \<Rightarrow> bool" where
  "key_ends_with_signup n =
     (case member n ''notice_key'' of Inr (JStr k) \<Rightarrow> suffix ''signup'' k | _ \<Rightarrow> False)"

definition separator_normalized :: "string \<Rightarrow> string" where
  "separator_normalized s = map (\<lambda>c. if c = CHR ''-'' then CHR ''_'' else c) (toLowerCase s)"

section \<open>Selecting the notice\<close>

lemma endsWith_suffix: "endsWith s suf = suffix suf s"
proof
  assume "endsWith s suf"
  then have "s = take (length s - length suf) s @ suf"
    by (metis append_take_drop_id endsWith_def)
  then show "suffix suf s" by (metis suffixI)
next
  assume "suffix suf s"
  then obtain p where "s = p @ suf" by (auto simp: suffix_def)
  then show "endsWith s suf" by (simp add: endsWith_def)
qed

lemma find_notice_typed:
  "list_all typed_notice ns \<Longrightarrow>
   find_notice ns = Inr (case find key_ends_with_signup ns of None \<Rightarrow> JUndefined | Some n \<Rightarrow> n)"
proof (induction ns)
  case Nil
  then show ?case by simp
next
  case (Cons n ns)
  from Cons.prems have t: "typed_notice n" and ts: "list_all typed_notice ns" by simp_all
  from t consider (str) k where "member n ''notice_key'' = Inr (JStr k)"
    | (null) "member n ''notice_key'' = Inr JNull"
    | (undef) "member n ''notice_key'' = Inr JUndefined"
    by (auto simp: typed_notice_def split: sum.splits json.splits)
  then show ?case
  proof cases
    case str
    then show ?thesis using Cons.IH[OF ts]
      by (simp add: notice_matches_def key_ends_with_signup_def nullish_def endsWith_suffix)
  next
    case null
    then show ?thesis using Cons.IH[OF ts]
      by (simp add: notice_matches_def key_ends_with_signup_def nullish_def)
  next
    case undef
    then show ?thesis using Cons.IH[OF ts]
      by (simp add: notice_matches_def key_ends_with_signup_def nullish_def)
  qed
qed

lemma member_Inr_not_nullish: "member x k = Inr v \<Longrightarrow> \<not> nullish x"
  by (cases x) (auto simp: nullish_def)

text \<open>
  Claim C9. For an experience whose \<^verbatim>\<open>privacy_notices\<close> is an array of notices,
  the selection returns the first notice, in the order of the array, whose key ends with
  \<^verbatim>\<open>signup\<close>, and \<^verbatim>\<open>undefined\<close> when there is none; the selection itself raises no error.
\<close>

theorem signUpNotice_first_match:
  assumes "member experience ''privacy_notices'' = Inr (JArr ns)"
    and "list_all typed_notice ns"
  shows "signUpNotice experience =
         Inr (case find key_ends_with_signup ns of None \<Rightarrow> JUndefined | Some n \<Rightarrow> n)"
  using assms member_Inr_not_nullish[OF assms(1)]
  by (simp add: signUpNotice_def nullish_def find_notice_typed)

theorem signUpNotice_first_match_witness:
  "signUpNotice (JObj [(''id'', JStr ''exp''),
       (''privacy_notices'', JArr [JObj [(''notice_key'', JStr ''marketing'')],
                                  JObj [(''notice_key'', JStr ''email_signup'')],
                                  JObj [(''notice_key'', JStr ''other_signup'')]])])
     = Inr (JObj [(''notice_key'', JStr ''email_signup'')])
   \<and> signUpNotice (JObj [(''id'', JStr ''exp''),
       (''privacy_notices'', JArr [JObj [(''notice_key'', JStr ''marketing'')], JObj []])])
     = Inr JUndefined"
  using signUpNotice_first_match[of
      "JObj [(''id'', JStr ''exp''),
       (''privacy_notices'', JArr [JObj [(''notice_key'', JStr ''marketing'')],
                                  JObj [(''notice_key'', JStr ''email_signup'')],
                                  JObj [(''notice_key'', JStr ''other_signup'')]])]"
      "[JObj [(''notice_key'', JStr ''marketing'')],
        JObj [(''notice_key'', JStr ''email_signup'')],
        JObj [(''notice_key'', JStr ''other_signup'')]]"]
    signUpNotice_first_match[of
      "JObj [(''id'', JStr ''exp''),
       (''privacy_notices'', JArr [JObj [(''notice_key'', JStr ''marketing'')], JObj []])]"
      "[JObj [(''notice_key'', JStr ''marketing'')], JObj []]"]
  by (simp add: typed_notice_def key_ends_with_signup_def suffix_to_prefix)

section \<open>Resolving the region\<close>

lemma String_replace_dash:
  "count_list s (CHR ''-'') \<le> 1 \<Longrightarrow>
   String_replace ''-'' ''_'' s = map (\<lambda>c. if c = CHR ''-'' then CHR ''_'' else c) s"
proof (induction s)
  case Nil
  then show ?case by simp
next
  case (Cons c cs)
  show ?case
  proof (cases "c = CHR ''-''")
    case True
    with Cons.prems have "count_list cs (CHR ''-'') = 0" by simp
    then have "CHR ''-'' \<notin> set cs" by (simp add: count_list_0_iff)
    then have "map (\<lambda>c. if c = CHR ''-'' then CHR ''_'' else c) cs = cs"
      by (induction cs) auto
    with True show ?thesis by simp
  next
    case False
    with Cons show ?thesis by simp
  qed
qed

lemma char_eq_code: "(c = d) = ((of_char c :: nat) = of_char d)"
  by simp

lemma toLowerCase_char_dash: "toLowerCase_char c = CHR ''-'' \<longleftrightarrow> c = CHR ''-''"
proof -
  define n where "n = (of_char c :: nat)"
  have dash: "(of_char (CHR ''-'') :: nat) = 45" by simp
  have c_dash: "c = CHR ''-'' \<longleftrightarrow> n = 45"
    unfolding n_def by (subst char_eq_code) (simp only: dash)
  show ?thesis
  proof (cases "(65 \<le> n \<and> n \<le> 90) \<or> (192 \<le> n \<and> n \<le> 222 \<and> n \<noteq> 215)")
    case False
    then have "toLowerCase_char c = c"
      unfolding toLowerCase_char_def Let_def n_def by (simp only: if_False)
    then show ?thesis by (simp only:)
  next
    case True
    then have low: "toLowerCase_char c = char_of (n + 32)"
      unfolding toLowerCase_char_def Let_def n_def by (simp only: if_True)
    have "(of_char (char_of (n + 32)) :: nat) = (n + 32) mod 256" by (rule of_char_of)
    moreover have "(n + 32) mod 256 \<noteq> 45"
    proof -
      from True have "n + 32 < 256" and "65 \<le> n" by linarith+
      then show ?thesis by simp
    qed
    ultimately have "(of_char (char_of (n + 32)) :: nat) \<noteq> of_char (CHR ''-'')"
      by (metis dash)
    then have "char_of (n + 32) \<noteq> CHR ''-''" by (subst char_eq_code)
    moreover have "n \<noteq> 45" using True by linarith
    ultimately show ?thesis by (simp only: low c_dash)
  qed
qed

lemma count_toLowerCase_dash: "count_list (toLowerCase s) (CHR ''-'') = count_list s (CHR ''-'')"
  by (induction s) (auto simp: toLowerCase_def toLowerCase_char_dash)


lemma processNotices_requests:
  "\<exists>more. requests (snd (processNotices net nd dev geo s)) = requests s @ more"
  by (auto simp: processNotices_def fetch_json_def fetch_def Let_def
           split: sum.splits prod.splits fetched.splits)

lemma lower_US_CA_LA: "toLowerCase ''US-CA-LA'' = ''us-ca-la''"
  by (simp add: toLowerCase_def toLowerCase_char_def char_of_eq_iff)

lemma lower_en_US: "toLowerCase ''en-US'' = ''en-us''"
  by (simp add: toLowerCase_def toLowerCase_char_def char_of_eq_iff)

lemma lower_US: "toLowerCase ''US'' = ''us''"
  by (simp add: toLowerCase_def toLowerCase_char_def char_of_eq_iff)

text \<open>\<^verbatim>\<open>replace("-", "_")\<close> rewrites the first \<^verbatim>\<open>-\<close> and leaves what follows it.\<close>

lemma String_replace_first:
  "String_replace ''-'' ''_'' s =
     takeWhile (\<lambda>c. c \<noteq> CHR ''-'') s
     @ (case dropWhile (\<lambda>c. c \<noteq> CHR ''-'') s of [] \<Rightarrow> [] | d # r \<Rightarrow> CHR ''_'' # r)"
  by (induction s) auto

lemma resolve_userGeo_first_separator:
  assumes "member locationData ''location'' = Inr (JStr loc)"
  shows "resolve_userGeo locationData =
     Inr (JStr (takeWhile (\<lambda>c. c \<noteq> CHR ''-'') (toLowerCase loc)
        @ (case dropWhile (\<lambda>c. c \<noteq> CHR ''-'') (toLowerCase loc) of
             [] \<Rightarrow> [] | d # r \<Rightarrow> CHR ''_'' # r)))"
  using assms member_Inr_not_nullish[OF assms]
  by (simp add: resolve_userGeo_def String_replace_first)

lemma resolve_userGeo_one_separator:
  assumes "member locationData ''location'' = Inr (JStr loc)"
    and "count_list loc (CHR ''-'') \<le> 1"
  shows "resolve_userGeo locationData = Inr (JStr (separator_normalized loc))"
proof -
  from assms(1) have nn: "\<not> nullish locationData" by (rule member_Inr_not_nullish)
  from assms(2) have "count_list (toLowerCase loc) (CHR ''-'') \<le> 1"
    by (simp only: count_toLowerCase_dash)
  then have "String_replace ''-'' ''_'' (toLowerCase loc) = separator_normalized loc"
    unfolding separator_normalized_def by (rule String_replace_dash)
  with assms(1) nn show ?thesis by (simp add: resolve_userGeo_def)
qed

text \<open>The catalog is queried with the lowercased country, whatever the location string is.\<close>

lemma catalog_query:
  assumes "member locationData ''location'' = Inr (JStr loc)"
    and "member locationData ''country'' = Inr (JStr country)"
    and "country \<noteq> []"
    and "net (length (requests s)) (GET LOCATION_ENDPOINT) = Response status (Inr locationData)"
  shows "\<exists>more. requests (fetchRegionAndNotices net dev s) =
             requests s @ [GET LOCATION_ENDPOINT, GET (experience_url (toLowerCase country))] @ more"
proof -
  from resolve_userGeo_first_separator[OF assms(1)] obtain geo where
    geo: "resolve_userGeo locationData = Inr (JStr geo)" by blast
  define s1 where "s1 = s\<lparr>requests := requests s @ [GET LOCATION_ENDPOINT]\<rparr>"
  define s2 where "s2 = s1\<lparr>requests := requests s1 @ [GET (experience_url (toLowerCase country))]\<rparr>"
  have r2: "requests s2 = requests s @ [GET LOCATION_ENDPOINT, GET (experience_url (toLowerCase country))]"
    by (simp add: s1_def s2_def)
  have loc: "fetch_json net (GET LOCATION_ENDPOINT) s = (Inr locationData, s1)"
    using assms(4) by (simp add: fetch_json_def fetch_def s1_def)
  have region: "opt_member locationData ''country'' = JStr country"
    using assms(2) by (simp add: opt_member_def)
  have "snd (fetchPrivacyExperiences net (toLowerCase country) s1) = s2"
    by (simp add: fetchPrivacyExperiences_def fetch_json_def fetch_def s2_def
             split: fetched.splits)
  then obtain r where exp: "fetchPrivacyExperiences net (toLowerCase country) s1 = (r, s2)"
    by (metis prod.collapse)
  show ?thesis
  proof (cases r)
    case (Inl e)
    with loc geo region exp assms(3) r2 show ?thesis
      by (simp add: fetchRegionAndNotices_def Let_def)
  next
    case (Inr noticesData)
    show ?thesis
    proof (cases "truthy noticesData")
      case False
      with Inr loc geo region exp assms(3) r2 show ?thesis
        by (simp add: fetchRegionAndNotices_def Let_def)
    next
      case True
      obtain more where
        "requests (snd (processNotices net noticesData dev (JStr geo) s2))
         = requests s2 @ more"
        using processNotices_requests by blast
      with True Inr loc geo region exp assms(3) r2 show ?thesis
        by (simp add: fetchRegionAndNotices_def Let_def)
    qed
  qed
qed

text \<open>The scenario of the specification: \<^verbatim>\<open>en-US\<close> and \<^verbatim>\<open>US\<close>.\<close>

lemma resolve_en_US:
  "resolve_userGeo (JObj [(''location'', JStr ''en-US''), (''country'', JStr ''US'')])
     = Inr (JStr ''en_us'')
   \<and> (\<exists>more. requests (fetchRegionAndNotices
          (\<lambda>k r. Response 200 (Inr (JObj [(''location'', JStr ''en-US''), (''country'', JStr ''US'')])))
          (JStr ''d'') (initial []))
        = [GET LOCATION_ENDPOINT, GET (experience_url ''us'')] @ more)"
  using resolve_userGeo_one_separator[of
      "JObj [(''location'', JStr ''en-US''), (''country'', JStr ''US'')]" "''en-US''"]
    catalog_query[of "JObj [(''location'', JStr ''en-US''), (''country'', JStr ''US'')]"
      "''en-US''" "''US''"
      "\<lambda>k r. Response 200 (Inr (JObj [(''location'', JStr ''en-US''), (''country'', JStr ''US'')]))"
      "initial []" 200 "JStr ''d''"]
  by (simp add: separator_normalized_def lower_en_US lower_US initial_def)

text \<open>
  Claim C8. The region code is the location of the geolocation answer, lowercased, with its
  separator \<^verbatim>\<open>-\<close> replaced by \<^verbatim>\<open>_\<close>. At a location with two separators, \<^verbatim>\<open>US-CA-LA\<close>, the
  region code computed is \<^verbatim>\<open>us_ca-la\<close>; the separator-normalized location is \<^verbatim>\<open>us_ca_la\<close>.
\<close>

theorem resolve_region_second_separator:
  "resolve_userGeo (JObj [(''location'', JStr ''US-CA-LA''), (''country'', JStr ''US'')])
     = Inr (JStr ''us_ca-la'')
   \<and> separator_normalized ''US-CA-LA'' = ''us_ca_la''"
  by (simp add: resolve_userGeo_def nullish_def separator_normalized_def lower_US_CA_LA)

section \<open>Submitting a preference\<close>

text \<open>
  The requests by their endpoint, and what the body of a preference request carries in
  \<^verbatim>\<open>preferences[0]\<close>.
\<close>

definition is_served :: "request \<Rightarrow> bool" where
  "is_served r = (case r of PATCH url body \<Rightarrow> url = served_url | GET url \<Rightarrow> False)"

definition is_preference :: "request \<Rightarrow> bool" where
  "is_preference r = (case r of PATCH url body \<Rightarrow> url = preferences_url | GET url \<Rightarrow> False)"


definition submitted_served :: "json \<Rightarrow> js_error + json" where
  "submitted_served body =
     (case member body ''preferences'' of
        Inl e \<Rightarrow> Inl e
      | Inr ps \<Rightarrow>
          (case index0 ps of Inl e \<Rightarrow> Inl e | Inr p \<Rightarrow> member p ''served_notice_history_id''))"

lemma urls_differ: "served_url \<noteq> preferences_url"
  by (simp add: served_url_def preferences_url_def)


lemma bodyData_frame [simp]:
  "bodyData (s\<lparr>cookies := jar\<rparr>) = bodyData s"
  "bodyData (s\<lparr>requests := rs\<rparr>) = bodyData s"
  by (simp_all add: bodyData_def split: sum.splits)





lemma recordConsentOnServer_requests:
  "requests (snd (recordConsentOnServer net s)) =
     (case bodyData s of Inl e \<Rightarrow> requests s
      | Inr bd \<Rightarrow> requests s @ [PATCH preferences_url (JSON_stringify bd)])"
  by (simp add: recordConsentOnServer_def fetch_def split: sum.splits fetched.splits)

lemma handleSubmit_requests:
  "requests (snd (handleSubmit net s)) =
     (case updateConsentCookie (consent (formData s)) (cookies s) of
        Inl e \<Rightarrow> requests s
      | Inr jar \<Rightarrow>
          (case bodyData s of Inl e \<Rightarrow> requests s
           | Inr bd \<Rightarrow> requests s @ [PATCH preferences_url (JSON_stringify bd)]))"
  by (simp add: handleSubmit_def recordConsentOnServer_requests split: sum.splits)

text \<open>A remote side for the examples: it answers the three requests of the startup and
  rejects the preference write. \<open>served\<close> is its answer to \<^verbatim>\<open>notices-served\<close>.\<close>

definition example_net :: "json \<Rightarrow> network" where
  "example_net served k r =
     (if r = GET LOCATION_ENDPOINT then
        Response 200 (Inr (JObj [(''location'', JStr ''en-US''), (''country'', JStr ''US'')]))
      else if r = GET (experience_url ''us'') then
        Response 200 (Inr (JObj [(''items'', JArr [JObj [(''id'', JStr ''e1''),
          (''privacy_notices'', JArr [JObj [(''notice_key'', JStr ''email_signup''),
             (''description'', JStr ''ok''), (''privacy_notice_history_id'', JStr ''h1'')]])]])]))
      else (case r of
              PATCH url body \<Rightarrow> if url = served_url then Response 200 (Inr served) else Failed
            | GET url \<Rightarrow> Failed))"

definition example_served :: json where
  "example_served = JArr [JObj [(''served_notice_history_id'', JStr ''s1'')]]"

text \<open>The state of the form once the startup against \<^const>\<open>example_net\<close> is over and the
  box has been set to \<open>b\<close>.\<close>

definition example_state :: "bool \<Rightarrow> app" where
  "example_state b =
     \<lparr>formData = \<lparr>name = [], email = [], consent = b\<rparr>,
      deviceId = JStr ''1b9d-4bed'', userGeo = JStr ''en_us'',
      privacyNotice = JObj [(''notice_key'', JStr ''email_signup''),
             (''description'', JStr ''ok''), (''privacy_notice_history_id'', JStr ''h1'')],
      noticeServed = JObj [(''served_notice_history_id'', JStr ''s1'')],
      privacyExperience = JObj [(''id'', JStr ''e1''),
          (''privacy_notices'', JArr [JObj [(''notice_key'', JStr ''email_signup''),
             (''description'', JStr ''ok''), (''privacy_notice_history_id'', JStr ''h1'')]])],
      cookies = [(''fides_consent'', JSON_stringify (consentObject ''1b9d-4bed''
                    ''2024-01-01T00:00:00.000Z'' ''2024-01-01T00:00:00.001Z''))],
      requests = []\<rparr>"

lemma example_state_reached:
  "map_sum id (\<lambda>s. s\<lparr>requests := []\<rparr>)
     (session ''1b9d-4bed'' ''2024-01-01T00:00:00.000Z'' ''2024-01-01T00:00:00.001Z''
        (example_net example_served) [] [Check True])
   = Inr (example_state True)"
  by code_simp



section \<open>The served reference\<close>

lemma is_served_simps [simp]:
  "is_served (GET u) = False"
  "is_served (PATCH u b) = (u = served_url)"
  by (simp_all add: is_served_def)

lemma is_preference_simps [simp]:
  "is_preference (GET u) = False"
  "is_preference (PATCH u b) = (u = preferences_url)"
  by (simp_all add: is_preference_def)

text \<open>What \<^const>\<open>processNotices\<close> leaves behind.\<close>

lemma processNotices_cases:
  "snd (processNotices net nd dev geo s) = s
   \<or> (\<exists>body. snd (processNotices net nd dev geo s)
               = s\<lparr>requests := requests s @ [PATCH served_url body]\<rparr>)
   \<or> (\<exists>body status resp notice.
         net (length (requests s)) (PATCH served_url body) = Response status (Inr resp)
       \<and> (\<exists>e. index0 resp = Inl e)
       \<and> snd (processNotices net nd dev geo s)
           = s\<lparr>requests := requests s @ [PATCH served_url body],
                privacyNotice := notice, deviceId := dev\<rparr>)
   \<or> (\<exists>body status resp notice first experience.
         net (length (requests s)) (PATCH served_url body) = Response status (Inr resp)
       \<and> index0 resp = Inr first
       \<and> snd (processNotices net nd dev geo s)
           = s\<lparr>requests := requests s @ [PATCH served_url body],
                privacyNotice := notice, deviceId := dev, noticeServed := first,
                userGeo := geo, privacyExperience := experience\<rparr>)"
proof (cases "member nd ''items''")
  case (Inl e)
  then show ?thesis by (simp add: processNotices_def)
next
  case items: (Inr items)
  show ?thesis
  proof (cases "index0 items")
    case (Inl e)
    with items show ?thesis by (simp add: processNotices_def)
  next
    case nd: (Inr noticeData)
    show ?thesis
    proof (cases "signUpNotice noticeData")
      case (Inl e)
      with items nd show ?thesis by (simp add: processNotices_def)
    next
      case notice: (Inr notice)
      show ?thesis
      proof (cases "noticesServedBody noticeData notice dev geo")
        case (Inl e)
        with items nd notice show ?thesis by (simp add: processNotices_def)
      next
        case body: (Inr body)
        let ?r = "PATCH served_url (JSON_stringify body)"
        let ?s1 = "s\<lparr>requests := requests s @ [?r]\<rparr>"
        show ?thesis
        proof (cases "net (length (requests s)) ?r")
          case Failed
          with items nd notice body
          have "snd (processNotices net nd dev geo s) = ?s1"
            by (simp add: processNotices_def fetch_json_def fetch_def)
          then show ?thesis by blast
        next
          case (Response status answer)
          show ?thesis
          proof (cases answer)
            case (Inl e)
            with Response items nd notice body
            have "snd (processNotices net nd dev geo s) = ?s1"
              by (simp add: processNotices_def fetch_json_def fetch_def)
            then show ?thesis by blast
          next
            case resp: (Inr resp)
            show ?thesis
            proof (cases "index0 resp")
              case (Inl e)
              with resp Response items nd notice body
              have "snd (processNotices net nd dev geo s)
                    = s\<lparr>requests := requests s @ [?r], privacyNotice := notice, deviceId := dev\<rparr>"
                by (simp add: processNotices_def fetch_json_def fetch_def Let_def)
              with Inl resp Response show ?thesis by blast
            next
              case (Inr first)
              with resp Response items nd notice body
              have "snd (processNotices net nd dev geo s)
                    = s\<lparr>requests := requests s @ [?r], privacyNotice := notice, deviceId := dev,
                         noticeServed := first, userGeo := geo, privacyExperience := noticeData\<rparr>"
                by (simp add: processNotices_def fetch_json_def fetch_def Let_def)
              with Inr resp Response show ?thesis by blast
            qed
          qed
        qed
      qed
    qed
  qed
qed

lemma fetchRegionAndNotices_cases:
  "\<exists>gets tail.
      requests (fetchRegionAndNotices net dev s) = requests s @ gets @ tail
    \<and> (\<forall>r\<in>set gets. \<exists>u. r = GET u)
    \<and> formData (fetchRegionAndNotices net dev s) = formData s
    \<and> cookies (fetchRegionAndNotices net dev s) = cookies s
    \<and> (tail = []
         \<and> privacyNotice (fetchRegionAndNotices net dev s) = privacyNotice s
         \<and> noticeServed (fetchRegionAndNotices net dev s) = noticeServed s
       \<or> (\<exists>body. tail = [PATCH served_url body]
            \<and> (privacyNotice (fetchRegionAndNotices net dev s) = privacyNotice s
                 \<and> noticeServed (fetchRegionAndNotices net dev s) = noticeServed s
               \<or> (\<exists>status resp.
                     net (length (requests s @ gets)) (PATCH served_url body)
                       = Response status (Inr resp)
                   \<and> (case index0 resp of
                         Inl e \<Rightarrow> noticeServed (fetchRegionAndNotices net dev s) = noticeServed s
                       | Inr first \<Rightarrow> noticeServed (fetchRegionAndNotices net dev s) = first)))))"
proof -
  let ?s1 = "s\<lparr>requests := requests s @ [GET LOCATION_ENDPOINT]\<rparr>"
  have idle: "?thesis" if "fetchRegionAndNotices net dev s = ?s1"
    by (rule exI[of _ "[GET LOCATION_ENDPOINT]"], rule exI[of _ "[]"]) (simp add: that)
  obtain r1 where f1: "fetch_json net (GET LOCATION_ENDPOINT) s = (r1, ?s1)"
    by (cases "net (length (requests s)) (GET LOCATION_ENDPOINT)")
       (auto simp: fetch_json_def fetch_def)
  show ?thesis
  proof (cases r1)
    case (Inl e)
    with f1 show ?thesis by (intro idle) (simp add: fetchRegionAndNotices_def)
  next
    case loc: (Inr locationData)
    show ?thesis
    proof (cases "resolve_userGeo locationData")
      case (Inl e)
      with f1 loc show ?thesis by (intro idle) (simp add: fetchRegionAndNotices_def)
    next
      case geo: (Inr geo)
      show ?thesis
      proof (cases "\<exists>country. opt_member locationData ''country'' = JStr country \<and> country \<noteq> []")
        case False
        with f1 loc geo show ?thesis
          by (intro idle) (auto simp: fetchRegionAndNotices_def Let_def split: json.splits)
      next
        case True
        then obtain country where c: "opt_member locationData ''country'' = JStr country"
          and ne: "country \<noteq> []" by blast
        let ?g2 = "GET (experience_url (toLowerCase country))"
        let ?s2 = "?s1\<lparr>requests := requests ?s1 @ [?g2]\<rparr>"
        have two: "?thesis" if "fetchRegionAndNotices net dev s = ?s2"
          by (rule exI[of _ "[GET LOCATION_ENDPOINT, ?g2]"], rule exI[of _ "[]"]) (simp add: that)
        obtain r2 where f2: "fetchPrivacyExperiences net (toLowerCase country) ?s1 = (r2, ?s2)"
          by (cases "net (length (requests ?s1)) ?g2")
             (auto simp: fetchPrivacyExperiences_def fetch_json_def fetch_def)
        show ?thesis
        proof (cases r2)
          case (Inl e)
          with f1 loc geo c ne f2 show ?thesis
            by (intro two) (simp add: fetchRegionAndNotices_def Let_def)
        next
          case nd: (Inr noticesData)
          show ?thesis
          proof (cases "truthy noticesData")
            case False
            with nd f1 loc geo c ne f2 show ?thesis
              by (intro two) (simp add: fetchRegionAndNotices_def Let_def)
          next
            case True
            with nd f1 loc geo c ne f2
            have eq: "fetchRegionAndNotices net dev s = snd (processNotices net noticesData dev geo ?s2)"
              by (simp add: fetchRegionAndNotices_def Let_def)
            have len: "length (requests ?s2) = length (requests s @ [GET LOCATION_ENDPOINT, ?g2])"
              by simp
            from processNotices_cases[of net noticesData dev geo ?s2]
            show ?thesis
              unfolding eq[symmetric] len
            proof (elim disjE exE conjE)
              assume "fetchRegionAndNotices net dev s = ?s2"
              then show ?thesis by (rule two)
            next
              fix body
              assume a: "fetchRegionAndNotices net dev s
                         = ?s2\<lparr>requests := requests ?s2 @ [PATCH served_url body]\<rparr>"
              show ?thesis
                by (rule exI[of _ "[GET LOCATION_ENDPOINT, ?g2]"],
                    rule exI[of _ "[PATCH served_url body]"]) (simp add: a)
            next
              fix body status resp notice e
              assume n: "net (length (requests s @ [GET LOCATION_ENDPOINT, ?g2])) (PATCH served_url body)
                         = Response status (Inr resp)"
                and i: "index0 resp = Inl e"
                and a: "fetchRegionAndNotices net dev s
                        = ?s2\<lparr>requests := requests ?s2 @ [PATCH served_url body],
                               privacyNotice := notice, deviceId := dev\<rparr>"
              show ?thesis
                apply (rule exI[of _ "[GET LOCATION_ENDPOINT, ?g2]"])
                apply (rule exI[of _ "[PATCH served_url body]"])
                using n i by (simp add: a)
            next
              fix body status resp notice first experience
              assume n: "net (length (requests s @ [GET LOCATION_ENDPOINT, ?g2])) (PATCH served_url body)
                         = Response status (Inr resp)"
                and i: "index0 resp = Inr first"
                and a: "fetchRegionAndNotices net dev s
                        = ?s2\<lparr>requests := requests ?s2 @ [PATCH served_url body],
                               privacyNotice := notice, deviceId := dev, noticeServed := first,
                               userGeo := geo, privacyExperience := experience\<rparr>"
              show ?thesis
                apply (rule exI[of _ "[GET LOCATION_ENDPOINT, ?g2]"])
                apply (rule exI[of _ "[PATCH served_url body]"])
                using n i by (simp add: a)
            qed
          qed
        qed
      qed
    qed
  qed
qed

text \<open>The answers of \<^verbatim>\<open>notices-served\<close> are arrays, as the cast of the source declares.\<close>

definition served_answers_are_arrays :: "network \<Rightarrow> bool" where
  "served_answers_are_arrays net =
     (\<forall>k body status resp.
        net k (PATCH served_url body) = Response status (Inr resp) \<longrightarrow> (\<exists>xs. resp = JArr xs))"

text \<open>After the effect of the mount.\<close>

lemma useEffect_cases:
  assumes "useEffect uuid now1 now2 net (initial jar) = Inr s0"
  shows "\<exists>gets tail.
      requests s0 = gets @ tail
    \<and> (\<forall>r\<in>set gets. \<exists>u. r = GET u)
    \<and> formData s0 = \<lparr>name = [], email = [], consent = False\<rparr>
    \<and> (tail = [] \<and> privacyNotice s0 = JObj [] \<and> noticeServed s0 = JObj []
       \<or> (\<exists>body. tail = [PATCH served_url body]
            \<and> (privacyNotice s0 = JObj [] \<and> noticeServed s0 = JObj []
               \<or> (\<exists>status resp.
                     net (length gets) (PATCH served_url body) = Response status (Inr resp)
                   \<and> (case index0 resp of
                         Inl e \<Rightarrow> noticeServed s0 = JObj []
                       | Inr first \<Rightarrow> noticeServed s0 = first)))))"
proof -
  from assms obtain dev jar1 where
    s0: "s0 = fetchRegionAndNotices net dev ((initial jar)\<lparr>cookies := jar1\<rparr>)"
    by (auto simp: useEffect_def split: sum.splits prod.splits)
  define t where "t = (initial jar)\<lparr>cookies := jar1\<rparr>"
  have t: "requests t = []" "privacyNotice t = JObj []" "noticeServed t = JObj []"
    "formData t = \<lparr>name = [], email = [], consent = False\<rparr>"
    by (simp_all add: t_def initial_def)
  from fetchRegionAndNotices_cases[of net dev t] show ?thesis
    unfolding s0 t_def[symmetric] t append_Nil by blast
qed

lemma disabled_initial_notice: "privacyNotice s = JObj [] \<Longrightarrow> disabled s"
  by (simp add: disabled_def opt_member_def)

lemma handleSubmit_cells:
  "privacyNotice (snd (handleSubmit net s)) = privacyNotice s"
  "noticeServed (snd (handleSubmit net s)) = noticeServed s"
  by (auto simp: handleSubmit_def recordConsentOnServer_def fetch_def
           split: sum.splits fetched.splits)

lemma react_cells:
  "privacyNotice (react net s e) = privacyNotice s"
  "noticeServed (react net s e) = noticeServed s"
  by (cases e; simp add: handleSubmit_cells handleInputChange_def handleCheckboxChange_def)+

lemma react_disabled: "disabled (react net s e) = disabled s"
  by (simp add: disabled_def react_cells)

lemma bodyData_formData:
  "bodyData s = Inr bd \<Longrightarrow>
   \<exists>v. member (noticeServed s) ''served_notice_history_id'' = Inr v \<and> submitted_served bd = Inr v"
  by (auto simp: bodyData_def submitted_served_def split: sum.splits)

lemma react_requests:
  "requests (react net s e) = requests s
   \<or> \<not> disabled s
     \<and> (\<exists>bd v. requests (react net s e) = requests s @ [PATCH preferences_url (JSON_stringify bd)]
              \<and> member (noticeServed s) ''served_notice_history_id'' = Inr v
              \<and> submitted_served bd = Inr v)"
proof (cases e)
  case Submit
  show ?thesis
  proof (cases "disabled s")
    case True
    with Submit show ?thesis by simp
  next
    case False
    with Submit show ?thesis
      using bodyData_formData[of s]
      by (auto simp: handleSubmit_requests split: sum.splits)
  qed
qed (simp_all add: handleInputChange_def handleCheckboxChange_def)

lemma foldl_react_cells:
  "privacyNotice (foldl (react net) s evs) = privacyNotice s"
  "noticeServed (foldl (react net) s evs) = noticeServed s"
  by (induction evs arbitrary: s) (simp_all add: react_cells)

lemma foldl_react_requests:
  "\<exists>subs. requests (foldl (react net) s evs) = requests s @ subs
     \<and> (disabled s \<longrightarrow> subs = [])
     \<and> (\<forall>r\<in>set subs. \<exists>bd v. r = PATCH preferences_url (JSON_stringify bd)
              \<and> member (noticeServed s) ''served_notice_history_id'' = Inr v
              \<and> submitted_served bd = Inr v)"
proof (induction evs arbitrary: s)
  case Nil
  show ?case by simp
next
  case (Cons e evs)
  let ?s1 = "react net s e"
  from Cons.IH[of ?s1] obtain subs where
    r: "requests (foldl (react net) ?s1 evs) = requests ?s1 @ subs"
    and d: "disabled ?s1 \<longrightarrow> subs = []"
    and a: "\<forall>r\<in>set subs. \<exists>bd v. r = PATCH preferences_url (JSON_stringify bd)
              \<and> member (noticeServed ?s1) ''served_notice_history_id'' = Inr v
              \<and> submitted_served bd = Inr v"
    by blast
  from react_requests[of net s e] show ?case
  proof
    assume same: "requests ?s1 = requests s"
    show ?thesis
      by (rule exI[of _ subs]) (use r d a same in \<open>simp add: react_cells react_disabled\<close>)
  next
    assume "\<not> disabled s
     \<and> (\<exists>bd v. requests ?s1 = requests s @ [PATCH preferences_url (JSON_stringify bd)]
              \<and> member (noticeServed s) ''served_notice_history_id'' = Inr v
              \<and> submitted_served bd = Inr v)"
    then obtain bd v where nd: "\<not> disabled s"
      and one: "requests ?s1 = requests s @ [PATCH preferences_url (JSON_stringify bd)]"
      and m: "member (noticeServed s) ''served_notice_history_id'' = Inr v"
      and sv: "submitted_served bd = Inr v" by blast
    show ?thesis
      by (rule exI[of _ "PATCH preferences_url (JSON_stringify bd) # subs"])
         (use r a one m sv nd in \<open>auto simp: react_cells\<close>)
  qed
qed



lemma session_cases:
  assumes "session uuid now1 now2 net jar evs = Inr s"
  shows "\<exists>gets tail subs.
      requests s = gets @ tail @ subs
    \<and> (\<forall>r\<in>set gets. \<exists>u. r = GET u)
    \<and> (disabled s \<longrightarrow> subs = [])
    \<and> (\<forall>r\<in>set subs. \<exists>bd v. r = PATCH preferences_url (JSON_stringify bd)
              \<and> member (noticeServed s) ''served_notice_history_id'' = Inr v
              \<and> submitted_served bd = Inr v)
    \<and> (tail = [] \<and> disabled s \<and> noticeServed s = JObj []
       \<or> (\<exists>body. tail = [PATCH served_url body]
            \<and> (disabled s \<and> noticeServed s = JObj []
               \<or> (\<exists>status resp.
                     net (length gets) (PATCH served_url body) = Response status (Inr resp)
                   \<and> (case index0 resp of
                         Inl e \<Rightarrow> noticeServed s = JObj []
                       | Inr first \<Rightarrow> noticeServed s = first)))))"
proof -
  from assms obtain s0 where
    u: "useEffect uuid now1 now2 net (initial jar) = Inr s0"
    and s: "s = foldl (react net) s0 evs"
    by (auto simp: session_def split: sum.splits)
  have ns: "noticeServed s = noticeServed s0" and pn: "privacyNotice s = privacyNotice s0"
    by (simp_all add: s foldl_react_cells)
  have ds: "disabled s = disabled s0" by (simp add: disabled_def pn)
  from foldl_react_requests[of net s0 evs] obtain subs where
    r: "requests s = requests s0 @ subs"
    and d: "disabled s0 \<longrightarrow> subs = []"
    and a: "\<forall>r\<in>set subs. \<exists>bd v. r = PATCH preferences_url (JSON_stringify bd)
              \<and> member (noticeServed s0) ''served_notice_history_id'' = Inr v
              \<and> submitted_served bd = Inr v"
    unfolding s by blast
  from useEffect_cases[OF u] obtain gets tail where
    g: "requests s0 = gets @ tail"
    and gg: "\<forall>r\<in>set gets. \<exists>u. r = GET u"
    and c: "tail = [] \<and> privacyNotice s0 = JObj [] \<and> noticeServed s0 = JObj []
       \<or> (\<exists>body. tail = [PATCH served_url body]
            \<and> (privacyNotice s0 = JObj [] \<and> noticeServed s0 = JObj []
               \<or> (\<exists>status resp.
                     net (length gets) (PATCH served_url body) = Response status (Inr resp)
                   \<and> (case index0 resp of
                         Inl e \<Rightarrow> noticeServed s0 = JObj []
                       | Inr first \<Rightarrow> noticeServed s0 = first))))"
    by blast
  have c': "tail = [] \<and> disabled s \<and> noticeServed s = JObj []
       \<or> (\<exists>body. tail = [PATCH served_url body]
            \<and> (disabled s \<and> noticeServed s = JObj []
               \<or> (\<exists>status resp.
                     net (length gets) (PATCH served_url body) = Response status (Inr resp)
                   \<and> (case index0 resp of
                         Inl e \<Rightarrow> noticeServed s = JObj []
                       | Inr first \<Rightarrow> noticeServed s = first))))"
    using c disabled_initial_notice[of s0] unfolding ns ds by blast
  show ?thesis
    apply (rule exI[of _ gets], rule exI[of _ tail], rule exI[of _ subs])
    using r g gg d a c' unfolding ns ds by simp
qed

lemma not_pref_served: "\<not> is_preference (PATCH served_url b)" "\<not> is_served (PATCH preferences_url b)"
  using urls_differ by auto



text \<open>Two sessions against \<^const>\<open>example_net\<close>, evaluated.\<close>

lemma example_arrays: "served_answers_are_arrays (example_net example_served)"
  by (auto simp: served_answers_are_arrays_def example_net_def example_served_def
           split: if_splits)



lemma example_session:
  "(case session ''1b9d-4bed'' ''2024-01-01T00:00:00.000Z'' ''2024-01-01T00:00:00.001Z''
           (example_net example_served) [] [Check True, Submit, Check False, Submit] of
      Inl e \<Rightarrow> False
    | Inr s \<Rightarrow> length (requests s) = 5 \<and> length (filter is_preference (requests s)) = 2
               \<and> length (filter is_served (requests s)) = 1)"
  by code_simp

text \<open>
  Claim C2. The requests of a session are those of the startup followed by those of the
  submissions. The startup makes at most one \<^verbatim>\<open>notices-served\<close> request and no preference
  request; every later request is a preference request and none of them is a
  \<^verbatim>\<open>notices-served\<close> request. When the answers of \<^verbatim>\<open>notices-served\<close> are arrays, every
  preference request carries the \<^verbatim>\<open>served_notice_history_id\<close> of the first element of the
  answer given to the \<^verbatim>\<open>notices-served\<close> request of the startup.
\<close>

theorem served_once_and_reused:
  assumes "session uuid now1 now2 net jar evs = Inr s"
  shows "\<exists>startup subs.
           requests s = startup @ subs
         \<and> length (filter is_served startup) \<le> 1
         \<and> (\<forall>r\<in>set startup. \<not> is_preference r)
         \<and> (\<forall>r\<in>set subs. is_preference r \<and> \<not> is_served r)
         \<and> (served_answers_are_arrays net \<longrightarrow>
              (\<forall>r\<in>set subs.
                 \<exists>k body status resp first bd.
                    k < length startup \<and> startup ! k = PATCH served_url body
                  \<and> net k (PATCH served_url body) = Response status (Inr resp)
                  \<and> index0 resp = Inr first
                  \<and> r = PATCH preferences_url (JSON_stringify bd)
                  \<and> submitted_served bd = member first ''served_notice_history_id''))"
proof -
  from session_cases[OF assms] obtain gets tail subs where
    r: "requests s = gets @ tail @ subs"
    and gg: "\<forall>r\<in>set gets. \<exists>u. r = GET u"
    and d: "disabled s \<longrightarrow> subs = []"
    and a: "\<forall>r\<in>set subs. \<exists>bd v. r = PATCH preferences_url (JSON_stringify bd)
              \<and> member (noticeServed s) ''served_notice_history_id'' = Inr v
              \<and> submitted_served bd = Inr v"
    and c: "tail = [] \<and> disabled s \<and> noticeServed s = JObj []
       \<or> (\<exists>body. tail = [PATCH served_url body]
            \<and> (disabled s \<and> noticeServed s = JObj []
               \<or> (\<exists>status resp.
                     net (length gets) (PATCH served_url body) = Response status (Inr resp)
                   \<and> (case index0 resp of
                         Inl e \<Rightarrow> noticeServed s = JObj []
                       | Inr first \<Rightarrow> noticeServed s = first))))"
    by blast
  have fg: "filter is_served gets = []" using gg by (auto simp: filter_empty_conv)
  have tl: "tail = [] \<or> (\<exists>body. tail = [PATCH served_url body])" using c by blast
  have one: "length (filter is_served (gets @ tail)) \<le> 1" using fg tl by auto
  have nopref: "\<forall>r\<in>set (gets @ tail). \<not> is_preference r"
    using gg tl not_pref_served(1) by auto
  have prefs: "\<forall>r\<in>set subs. is_preference r \<and> \<not> is_served r"
    using a not_pref_served(2) by auto
  have each: "\<exists>k body status resp first bd.
                    k < length (gets @ tail) \<and> (gets @ tail) ! k = PATCH served_url body
                  \<and> net k (PATCH served_url body) = Response status (Inr resp)
                  \<and> index0 resp = Inr first
                  \<and> r = PATCH preferences_url (JSON_stringify bd)
                  \<and> submitted_served bd = member first ''served_notice_history_id''"
    if rin: "r \<in> set subs" and arr: "served_answers_are_arrays net" for r
  proof -
    from a rin obtain bd v where rq: "r = PATCH preferences_url (JSON_stringify bd)"
      and m: "member (noticeServed s) ''served_notice_history_id'' = Inr v"
      and sv: "submitted_served bd = Inr v" by blast
    from rin d have nd: "\<not> disabled s" by auto
    with c obtain body status resp where t: "tail = [PATCH served_url body]"
      and n: "net (length gets) (PATCH served_url body) = Response status (Inr resp)"
      and i: "case index0 resp of Inl e \<Rightarrow> noticeServed s = JObj []
                       | Inr first \<Rightarrow> noticeServed s = first"
      by blast
    from arr n obtain xs where "resp = JArr xs"
      unfolding served_answers_are_arrays_def by blast
    then obtain first where f: "index0 resp = Inr first" by simp
    with i have "noticeServed s = first" by simp
    with m sv have "submitted_served bd = member first ''served_notice_history_id''" by simp
    moreover have "(gets @ tail) ! length gets = PATCH served_url body" using t by simp
    moreover have "length gets < length (gets @ tail)" using t by simp
    ultimately show ?thesis using rq n f by blast
  qed
  show ?thesis
    apply (rule exI[of _ "gets @ tail"], rule exI[of _ subs])
    using r one nopref prefs each by simp
qed

theorem served_once_and_reused_witness:
  "\<exists>s startup subs.
      session ''1b9d-4bed'' ''2024-01-01T00:00:00.000Z'' ''2024-01-01T00:00:00.001Z''
        (example_net example_served) [] [Check True, Submit, Check False, Submit] = Inr s
    \<and> served_answers_are_arrays (example_net example_served)
    \<and> requests s = startup @ subs
    \<and> length startup = 3 \<and> length subs = 2
    \<and> length (filter is_served startup) = 1
    \<and> filter is_served subs = []
    \<and> list_all (\<lambda>r. \<exists>bd. r = PATCH preferences_url (JSON_stringify bd)
                        \<and> submitted_served bd = Inr (JStr ''s1'')) subs"
proof -
  let ?net = "example_net example_served"
  from example_session obtain s where
    ses: "session ''1b9d-4bed'' ''2024-01-01T00:00:00.000Z'' ''2024-01-01T00:00:00.001Z''
            ?net [] [Check True, Submit, Check False, Submit] = Inr s"
    and len: "length (requests s) = 5"
    and two: "length (filter is_preference (requests s)) = 2"
    and one: "length (filter is_served (requests s)) = 1"
    by (auto split: sum.splits)
  from served_once_and_reused[OF ses] example_arrays obtain startup subs where
    r: "requests s = startup @ subs"
    and np: "\<forall>r\<in>set startup. \<not> is_preference r"
    and ps: "\<forall>r\<in>set subs. is_preference r \<and> \<not> is_served r"
    and link: "\<forall>r\<in>set subs.
                 \<exists>k body status resp first bd.
                    k < length startup \<and> startup ! k = PATCH served_url body
                  \<and> ?net k (PATCH served_url body) = Response status (Inr resp)
                  \<and> index0 resp = Inr first
                  \<and> r = PATCH preferences_url (JSON_stringify bd)
                  \<and> submitted_served bd = member first ''served_notice_history_id''"
    by blast
  from np have "filter is_preference startup = []" by (simp add: filter_empty_conv)
  moreover from ps have "filter is_preference subs = subs" by (simp add: filter_id_conv)
  ultimately have "filter is_preference (requests s) = subs" by (simp add: r)
  with two have l2: "length subs = 2" by simp
  with len r have l3: "length startup = 3" by simp
  from ps have ns: "filter is_served subs = []" by (simp add: filter_empty_conv)
  with one r have s1: "length (filter is_served startup) = 1" by simp
  have each: "\<exists>bd. q = PATCH preferences_url (JSON_stringify bd)
                        \<and> submitted_served bd = Inr (JStr ''s1'')" if "q \<in> set subs" for q
  proof -
    from link that obtain k body status resp first bd where
      n: "?net k (PATCH served_url body) = Response status (Inr resp)"
      and i: "index0 resp = Inr first"
      and q: "q = PATCH preferences_url (JSON_stringify bd)"
      and v: "submitted_served bd = member first ''served_notice_history_id''"
      by blast
    from n have "resp = example_served" by (simp add: example_net_def)
    with i have "first = JObj [(''served_notice_history_id'', JStr ''s1'')]"
      by (simp add: example_served_def)
    with v have "submitted_served bd = Inr (JStr ''s1'')" by simp
    with q show ?thesis by blast
  qed
  then have all: "list_all (\<lambda>r. \<exists>bd. r = PATCH preferences_url (JSON_stringify bd)
                        \<and> submitted_served bd = Inr (JStr ''s1'')) subs"
    unfolding list_all_iff by blast
  from ses example_arrays r l3 l2 s1 ns all show ?thesis by blast
qed



section \<open>A rejected preference write\<close>

text \<open>
  Claim C10. A failure of the preference write is to reach the caller of the submit, and the
  cookie updated before it is kept. In the session below the box is ticked and the remote
  side rejects the preference write: the promise of \<^verbatim>\<open>recordConsentOnServer\<close> is rejected with
  the network error, and the promise of \<^verbatim>\<open>handleSubmit\<close>, which does not await it, is
  fulfilled; the cookie has been rewritten and stays so.
\<close>

theorem rejected_write_not_surfaced:
  "(case session ''1b9d-4bed'' ''2024-01-01T00:00:00.000Z'' ''2024-01-01T00:00:00.001Z''
           (example_net example_served) [] [Check True] of
      Inl e \<Rightarrow> False
    | Inr s \<Rightarrow>
        \<not> disabled s
      \<and> (case updateConsentCookie True (cookies s) of
           Inl e \<Rightarrow> False
         | Inr jar \<Rightarrow>
             jar \<noteq> cookies s
           \<and> fst (recordConsentOnServer (example_net example_served) (s\<lparr>cookies := jar\<rparr>))
               = Inl NetworkError
           \<and> fst (handleSubmit (example_net example_served) s) = Inr ()
           \<and> cookies (snd (handleSubmit (example_net example_served) s)) = jar))"
  by code_simp

section \<open>The text of the cookie\<close>

text \<open>
  The jars that \<^verbatim>\<open>document.cookie\<close> can hold: the names are distinct, not empty and without
  \<^verbatim>\<open>;\<close> and \<^verbatim>\<open>=\<close>, the values without \<^verbatim>\<open>;\<close>.
\<close>

definition jar_ok :: "cookie_jar \<Rightarrow> bool" where
  "jar_ok jar =
     (distinct (map fst jar)
      \<and> list_all (\<lambda>(k, v). k \<noteq> [] \<and> CHR '';'' \<notin> set k \<and> CHR ''='' \<notin> set k
                          \<and> CHR '';'' \<notin> set v) jar)"

text \<open>The text of a jar with a separator before every pair.\<close>

fun jar_text :: "cookie_jar \<Rightarrow> string" where
  "jar_text [] = []"
| "jar_text ((k, v) # jar) = ''; '' @ k @ ''='' @ v @ jar_text jar"

lemma document_cookie_text:
  "list_all (\<lambda>(k, v). k \<noteq> []) jar \<Longrightarrow> jar \<noteq> [] \<Longrightarrow>
   ''; '' @ document_cookie jar = jar_text jar"
proof (induction jar rule: induct_list012)
  case 1
  then show ?case by simp
next
  case (2 p)
  then show ?case by (cases p) (simp add: document_cookie_def)
next
  case (3 p q jar)
  then show ?case
    by (cases p; cases q) (simp add: document_cookie_def)
qed

lemma split_pass:
  "CHR '';'' \<notin> set w \<Longrightarrow>
   split_from (CHR '';'' # sep) 0 acc (w @ t) = split_from (CHR '';'' # sep) 0 (rev w @ acc) t"
  by (induction w arbitrary: acc) auto

lemma split_skip:
  "length w = n \<Longrightarrow> split_from sep n acc (w @ t) = split_from sep 0 acc t"
  by (induction w arbitrary: n) auto

lemma prefix_name:
  "CHR ''='' \<notin> set a \<Longrightarrow> CHR ''='' \<notin> set b \<Longrightarrow>
   prefix (a @ CHR ''='' # x) (b @ CHR ''='' # t) \<longleftrightarrow> a = b \<and> prefix x t"
proof (induction a arbitrary: b)
  case Nil
  then show ?case by (cases b) auto
next
  case (Cons c a)
  then show ?case by (cases b) auto
qed

lemma split_entry:
  assumes "CHR '';'' \<notin> set k" "CHR ''='' \<notin> set k" "CHR '';'' \<notin> set v"
    and "CHR ''='' \<notin> set nm"
  shows "split_from (CHR '';'' # CHR '' '' # nm @ ''='') 0 acc (''; '' @ k @ ''='' @ v @ t) =
           (if k = nm then rev acc # split_from (CHR '';'' # CHR '' '' # nm @ ''='') 0 [] (v @ t)
            else split_from (CHR '';'' # CHR '' '' # nm @ ''='') 0 (rev (''; '' @ k @ ''='' @ v) @ acc) t)"
proof (cases "k = nm")
  case True
  have "split_from (CHR '';'' # CHR '' '' # nm @ ''='') (length (CHR '';'' # CHR '' '' # nm @ ''='') - 1) []
          ((CHR '' '' # nm @ ''='') @ v @ t)
        = split_from (CHR '';'' # CHR '' '' # nm @ ''='') 0 [] (v @ t)"
    by (rule split_skip) simp
  with True show ?thesis by simp
next
  case False
  with assms have np: "\<not> prefix (nm @ CHR ''='' # []) (k @ CHR ''='' # v @ t)"
    using prefix_name[of nm k "[]" "v @ t"] by auto
  have "split_from (CHR '';'' # CHR '' '' # nm @ ''='') 0 (CHR '';'' # acc)
          ((CHR '' '' # k @ ''='' @ v) @ t)
        = split_from (CHR '';'' # CHR '' '' # nm @ ''='') 0
            (rev (CHR '' '' # k @ ''='' @ v) @ CHR '';'' # acc) t"
    using assms by (intro split_pass) auto
  with False np show ?thesis by simp
qed

lemma split_jar_absent:
  assumes "CHR ''='' \<notin> set nm"
  shows "jar_ok jar \<Longrightarrow> nm \<notin> fst ` set jar \<Longrightarrow>
         split_from (CHR '';'' # CHR '' '' # nm @ ''='') 0 acc (jar_text jar) = [rev acc @ jar_text jar]"
proof (induction jar arbitrary: acc)
  case Nil
  then show ?case by simp
next
  case (Cons p jar)
  obtain k v where p: "p = (k, v)" by (cases p)
  from Cons.prems p have ok: "CHR '';'' \<notin> set k" "CHR ''='' \<notin> set k" "CHR '';'' \<notin> set v"
    and ne: "k \<noteq> nm" and rest: "jar_ok jar" "nm \<notin> fst ` set jar"
    by (auto simp: jar_ok_def)
  show ?case
    unfolding p jar_text.simps
    by (subst split_entry[OF ok assms]) (simp add: ne Cons.IH[OF rest])
qed

lemma split_jar_present:
  assumes "CHR ''='' \<notin> set nm"
  shows "jar_ok jar \<Longrightarrow> map_of jar nm = Some v \<Longrightarrow>
         \<exists>pre post. split_from (CHR '';'' # CHR '' '' # nm @ ''='') 0 acc (jar_text jar) = [pre, v @ post]
            \<and> (post = [] \<or> hd post = CHR '';'')"
proof (induction jar arbitrary: acc)
  case Nil
  then show ?case by simp
next
  case (Cons p jar)
  obtain k w where p: "p = (k, w)" by (cases p)
  from Cons.prems(1) p have ok: "CHR '';'' \<notin> set k" "CHR ''='' \<notin> set k" "CHR '';'' \<notin> set w"
    and rest: "jar_ok jar" and fresh: "k \<notin> fst ` set jar"
    by (auto simp: jar_ok_def)
  show ?case
  proof (cases "k = nm")
    case True
    with Cons.prems(2) p have wv: "w = v" by simp
    from True fresh have "nm \<notin> fst ` set jar" by simp
    from split_jar_absent[OF assms rest this, of "rev v"]
    have "split_from (CHR '';'' # CHR '' '' # nm @ ''='') 0 (rev v) (jar_text jar) = [v @ jar_text jar]" by simp
    moreover have "split_from (CHR '';'' # CHR '' '' # nm @ ''='') 0 [] (v @ jar_text jar)
                   = split_from (CHR '';'' # CHR '' '' # nm @ ''='') 0 (rev v) (jar_text jar)"
      using split_pass[of v "CHR '' '' # nm @ ''=''" "[]" "jar_text jar"] ok(3) wv by simp
    moreover have "jar_text jar = [] \<or> hd (jar_text jar) = CHR '';''"
      by (cases jar rule: jar_text.cases) simp_all
    ultimately show ?thesis
      unfolding p jar_text.simps
      by (subst split_entry[OF ok assms]) (simp add: True wv)
  next
    case False
    with Cons.prems(2) p have "map_of jar nm = Some v" by simp
    from Cons.IH[OF rest this] False show ?thesis
      unfolding p jar_text.simps
      by (subst split_entry[OF ok assms]) simp
  qed
qed

lemma split_semicolon_first:
  "CHR '';'' \<notin> set v \<Longrightarrow> post = [] \<or> hd post = CHR '';'' \<Longrightarrow>
   (case String_split '';'' (v @ post) of [] \<Rightarrow> [] | x # _ \<Rightarrow> x) = v"
  using split_pass[of v "[]" "[]" post]
  by (cases post) (auto simp: String_split_def)

lemma jar_ok_names: "jar_ok jar \<Longrightarrow> list_all (\<lambda>(k, v). k \<noteq> []) jar"
  by (auto simp: jar_ok_def list_all_iff)

lemma getCookie_absent:
  assumes "jar_ok jar" and "nm \<notin> fst ` set jar" and "CHR ''='' \<notin> set nm"
  shows "getCookie nm jar = Inr None"
proof (cases jar)
  case Nil
  then show ?thesis by (simp add: getCookie_def document_cookie_def String_split_def)
next
  case (Cons p ps)
  then have t: "''; '' @ document_cookie jar = jar_text jar"
    using document_cookie_text[OF jar_ok_names[OF assms(1)]] by simp
  from split_jar_absent[OF assms(3) assms(1) assms(2), of "[]"]
  show ?thesis
    unfolding getCookie_def t by (simp add: String_split_def)
qed

lemma getCookie_present:
  assumes "jar_ok jar" and "map_of jar nm = Some v" and "CHR ''='' \<notin> set nm"
  shows "getCookie nm jar = (case decodeCookie v of Inl e \<Rightarrow> Inl e | Inr s \<Rightarrow> Inr (Some s))"
proof -
  from assms(2) have ne: "jar \<noteq> []" by auto
  then have t: "''; '' @ document_cookie jar = jar_text jar"
    using document_cookie_text[OF jar_ok_names[OF assms(1)]] by simp
  from assms(1,2) have sv: "CHR '';'' \<notin> set v"
    by (auto simp: jar_ok_def list_all_iff dest!: map_of_SomeD)
  from split_jar_present[OF assms(3) assms(1) assms(2), of "[]"] obtain pre post where
    sp: "split_from (CHR '';'' # CHR '' '' # nm @ ''='') 0 [] (jar_text jar) = [pre, v @ post]"
    and po: "post = [] \<or> hd post = CHR '';''" by blast
  show ?thesis
    unfolding getCookie_def t
    using sp split_semicolon_first[OF sv po] by (simp add: String_split_def)
qed

lemma jar_put_map_of: "map_of (jar_put k v jar) k = Some v"
  by (induction jar) auto

lemma jar_put_keys: "fst ` set (jar_put k v jar) = insert k (fst ` set jar)"
  by (induction jar) (force split: if_splits)+

lemma jar_put_distinct: "distinct (map fst jar) \<Longrightarrow> distinct (map fst (jar_put k v jar))"
  by (induction jar) (auto simp: jar_put_keys)

lemma jar_put_ok:
  assumes "jar_ok jar" "k \<noteq> []" "CHR '';'' \<notin> set k" "CHR ''='' \<notin> set k" "CHR '';'' \<notin> set v"
  shows "jar_ok (jar_put k v jar)"
proof -
  have "list_all P jar \<Longrightarrow> P (k, v) \<Longrightarrow> list_all P (jar_put k v jar)" for P
    by (induction jar) auto
  with assms show ?thesis by (auto simp: jar_ok_def jar_put_distinct)
qed

lemma trim_plain:
  "s = [] \<or> ((hd s \<noteq> CHR '' '' \<and> (of_char (hd s) :: nat) \<noteq> 9)
             \<and> (last s \<noteq> CHR '' '' \<and> (of_char (last s) :: nat) \<noteq> 9)) \<Longrightarrow> trim s = s"
proof (cases s)
  case Nil
  then show ?thesis by (simp add: trim_def)
next
  case (Cons c cs)
  assume "s = [] \<or> ((hd s \<noteq> CHR '' '' \<and> (of_char (hd s) :: nat) \<noteq> 9)
             \<and> (last s \<noteq> CHR '' '' \<and> (of_char (last s) :: nat) \<noteq> 9))"
  with Cons have h: "c \<noteq> CHR '' ''" "(of_char c :: nat) \<noteq> 9"
    and l: "last s \<noteq> CHR '' ''" "(of_char (last s) :: nat) \<noteq> 9" by auto
  have keep: "xs \<noteq> [] \<Longrightarrow> \<not> P (hd xs) \<Longrightarrow> dropWhile P xs = xs" for P and xs :: string
    by (cases xs) simp_all
  have "hd (rev s) = last s" using Cons by (simp add: hd_rev)
  then have "dropWhile (\<lambda>c. c = CHR '' '' \<or> (of_char c :: nat) = 9) (rev s) = rev s"
    using l Cons by (intro keep) simp_all
  moreover have "dropWhile (\<lambda>c. c = CHR '' '' \<or> (of_char c :: nat) = 9) s = s"
    using Cons h by simp
  ultimately show ?thesis by (simp add: trim_def)
qed

lemma set_document_cookie_pair:
  assumes "CHR '';'' \<notin> set nm" "CHR ''='' \<notin> set nm" "CHR '';'' \<notin> set v"
    and "trim nm = nm" "trim v = v"
  shows "set_document_cookie (nm @ ''='' @ v @ ''; path=/; max-age=31536000'') jar
         = jar_put nm v jar"
proof -
  have tw: "takeWhile (\<lambda>c. c \<noteq> CHR '';'') ((nm @ ''='' @ v) @ CHR '';'' # rest) = nm @ ''='' @ v"
    for rest
    using assms(1,3) by (subst takeWhile_append2) auto
  have a: "takeWhile (\<lambda>c. c \<noteq> CHR ''='') (nm @ CHR ''='' # v) = nm"
    using assms(2) by (subst takeWhile_append2) auto
  have b: "dropWhile (\<lambda>c. c \<noteq> CHR ''='') (nm @ CHR ''='' # v) = CHR ''='' # v"
    using assms(2) by (subst dropWhile_append2) auto
  show ?thesis
    using tw[of "'' path=/; max-age=31536000''"] a b assms(4,5)
    by (simp add: set_document_cookie_def Let_def)
qed

lemma decodeURIComponent_plain:
  "CHR ''%'' \<notin> set s \<Longrightarrow> decodeURIComponent s = Inr s"
  by (induction s) (auto simp: cons_char_def)

lemma char_code_eq: "(c = d) = ((of_char c :: nat) = of_char d)"
  by simp

lemma char_of_code: "(of_char c :: nat) = n \<Longrightarrow> char_of n = c"
  by auto

lemma hex_lower_value: "d < 16 \<Longrightarrow> hex_value (hex_lower d) = Some d"
proof -
  assume "d < 16"
  then have "d = 0 \<or> d = 1 \<or> d = 2 \<or> d = 3 \<or> d = 4 \<or> d = 5 \<or> d = 6 \<or> d = 7
      \<or> d = 8 \<or> d = 9 \<or> d = 10 \<or> d = 11 \<or> d = 12 \<or> d = 13 \<or> d = 14 \<or> d = 15"
    by presburger
  then show ?thesis
    by (elim disjE) (simp_all add: hex_lower_def hex_value_def)
qed

lemma hex_upper_value: "d < 16 \<Longrightarrow> hex_value (hex_upper d) = Some d"
proof -
  assume "d < 16"
  then have "d = 0 \<or> d = 1 \<or> d = 2 \<or> d = 3 \<or> d = 4 \<or> d = 5 \<or> d = 6 \<or> d = 7
      \<or> d = 8 \<or> d = 9 \<or> d = 10 \<or> d = 11 \<or> d = 12 \<or> d = 13 \<or> d = 14 \<or> d = 15"
    by presburger
  then show ?thesis
    by (elim disjE) (simp_all add: hex_upper_def hex_value_def)
qed

text \<open>Reading back a string literal written by \<^const>\<open>QuoteJSONString\<close>.\<close>

definition cons_lexed :: "char \<Rightarrow> js_error + (string \<times> string) \<Rightarrow> js_error + (string \<times> string)" where
  "cons_lexed c r = (case r of Inl e \<Rightarrow> Inl e | Inr (s, rest) \<Rightarrow> Inr (c # s, rest))"

lemma lex_string_quote_char:
  "lex_string (quote_char c @ t) = cons_lexed c (lex_string t)"
proof -
  define n where "n = (of_char c :: nat)"
  have cn: "char_of n = c" by (simp add: n_def)
  have q: "c = CHR 0x22 \<longleftrightarrow> n = 34" and b: "c = CHR 0x5C \<longleftrightarrow> n = 92"
    unfolding n_def by (subst char_code_eq, simp)+
  consider "n = 34" | "n = 92" | "n = 8" | "n = 12" | "n = 10" | "n = 13" | "n = 9"
    | "n < 32" "n \<notin> {8, 12, 10, 13, 9}" | "32 \<le> n" "n \<noteq> 34" "n \<noteq> 92"
    by fastforce
  then show ?thesis
  proof cases
    case 1
    then have "c = CHR 0x22" using q by simp
    then show ?thesis
      by (simp add: quote_char_def cons_lexed_def simple_escape_def split: sum.splits)
  next
    case 2
    then have "c = CHR 0x5C" using b by simp
    then show ?thesis
      by (simp add: quote_char_def cons_lexed_def simple_escape_def split: sum.splits)
  next
    case 3
    then have "quote_char c = [CHR 0x5C, CHR ''b'']" and "c = char_of (8::nat)"
      using cn by (simp_all add: quote_char_def n_def[symmetric])
    then show ?thesis
      by (simp add: cons_lexed_def simple_escape_def split: sum.splits)
  next
    case 4
    then have "quote_char c = [CHR 0x5C, CHR ''f'']" and "c = char_of (12::nat)"
      using cn by (simp_all add: quote_char_def n_def[symmetric])
    then show ?thesis
      by (simp add: cons_lexed_def simple_escape_def split: sum.splits)
  next
    case 5
    then have "quote_char c = [CHR 0x5C, CHR ''n'']" and "c = char_of (10::nat)"
      using cn by (simp_all add: quote_char_def n_def[symmetric])
    then show ?thesis
      by (simp add: cons_lexed_def simple_escape_def split: sum.splits)
  next
    case 6
    then have "quote_char c = [CHR 0x5C, CHR ''r'']" and "c = char_of (13::nat)"
      using cn by (simp_all add: quote_char_def n_def[symmetric])
    then show ?thesis
      by (simp add: cons_lexed_def simple_escape_def split: sum.splits)
  next
    case 7
    then have "quote_char c = [CHR 0x5C, CHR ''t'']" and "c = char_of (9::nat)"
      using cn by (simp_all add: quote_char_def n_def[symmetric])
    then show ?thesis
      by (simp add: cons_lexed_def simple_escape_def split: sum.splits)
  next
    case 8
    then have qc: "quote_char c =
        [CHR 0x5C, CHR ''u'', CHR ''0'', CHR ''0'', hex_lower (n div 16), hex_lower (n mod 16)]"
      by (simp add: quote_char_def n_def[symmetric])
    have "n div 16 < 16" using 8(1) by simp
    then have h1: "hex_value (hex_lower (n div 16)) = Some (n div 16)" by (rule hex_lower_value)
    have h2: "hex_value (hex_lower (n mod 16)) = Some (n mod 16)" by (rule hex_lower_value) simp
    have h0: "hex_value (CHR ''0'') = Some 0" by (simp add: hex_value_def)
    have "unicode_escape (CHR ''0'') (CHR ''0'') (hex_lower (n div 16)) (hex_lower (n mod 16))
          = Inr c"
      using 8(1) cn by (simp add: unicode_escape_def h0 h1 h2)
    then show ?thesis
      by (simp add: qc cons_lexed_def split: sum.splits)
  next
    case 9
    then have "quote_char c = [c]" by (simp add: quote_char_def n_def[symmetric])
    moreover have "c \<noteq> CHR 0x22" "c \<noteq> CHR 0x5C" using 9 q b by simp_all
    moreover have "\<not> (of_char c :: nat) < 32" using 9 by (simp add: n_def)
    ultimately show ?thesis by (simp add: cons_lexed_def split: sum.splits)
  qed
qed

lemma lex_string_quoted:
  "lex_string (concat (map quote_char s) @ CHR 0x22 # rest) = Inr (s, rest)"
  by (induction s) (simp_all add: lex_string_quote_char cons_lexed_def)

declare decimal.simps [simp del]

lemma decimal_small: "n < 10 \<Longrightarrow> decimal n = [char_of (48 + n)]"
  by (subst decimal.simps) simp

lemma decimal_large:
  "\<not> n < 10 \<Longrightarrow> decimal n = decimal (n div 10) @ [char_of (48 + n mod 10)]"
  by (subst decimal.simps) simp

lemma digit_char: "n < 10 \<Longrightarrow> is_digit (char_of (48 + n)) \<and> digit_val (char_of (48 + n)) = int n"
proof -
  assume n: "n < 10"
  have c: "(of_char (char_of (48 + n)) :: nat) = 48 + n" using n by simp
  have "(of_char (char_of (48 + n)) :: int) = int (of_char (char_of (48 + n)))"
    by (simp only: of_nat_of_char)
  then have "(of_char (char_of (48 + n)) :: int) = 48 + int n" using c by simp
  then show ?thesis using c n by (simp add: is_digit_def digit_val_def)
qed

lemma digits_value_decimal:
  "digits_value acc (decimal n @ rest) = digits_value (acc * 10 ^ length (decimal n) + int n) rest"
proof (induction n arbitrary: acc rest rule: decimal.induct)
  case (1 n)
  show ?case
  proof (cases "n < 10")
    case True
    then have d: "decimal n = [char_of (48 + n)]" by (rule decimal_small)
    show ?thesis using digit_char[OF True] unfolding d by simp
  next
    case False
    then have d: "decimal n = decimal (n div 10) @ [char_of (48 + n mod 10)]"
      by (rule decimal_large)
    have m: "n mod 10 < 10" by simp
    have "digits_value acc (decimal n @ rest)
          = digits_value (acc * 10 ^ length (decimal (n div 10)) + int (n div 10))
              (char_of (48 + n mod 10) # rest)"
      unfolding d using "1.IH"[OF False, of acc "char_of (48 + n mod 10) # rest"] by simp
    also have "\<dots> = digits_value
         ((acc * 10 ^ length (decimal (n div 10)) + int (n div 10)) * 10 + int (n mod 10)) rest"
      using digit_char[OF m] by simp
    also have "(acc * 10 ^ length (decimal (n div 10)) + int (n div 10)) * 10 + int (n mod 10)
               = acc * 10 ^ length (decimal n) + int n"
    proof -
      have "int (n div 10) * 10 + int (n mod 10) = int n"
        by (metis mult.commute of_nat_add of_nat_mult mult_div_mod_eq of_nat_numeral)
      moreover have "length (decimal n) = Suc (length (decimal (n div 10)))"
        by (subst d) simp
      ultimately show ?thesis by (simp add: algebra_simps)
    qed
    finally show ?thesis .
  qed
qed

lemma decimal_digits: "decimal n \<noteq> [] \<and> list_all is_digit (decimal n)"
proof (induction n rule: decimal.induct)
  case (1 n)
  show ?case
  proof (cases "n < 10")
    case True
    then show ?thesis using digit_char[OF True] by (simp add: decimal_small)
  next
    case False
    have m: "n mod 10 < 10" by simp
    from False have d: "decimal n = decimal (n div 10) @ [char_of (48 + n mod 10)]"
      by (rule decimal_large)
    show ?thesis unfolding d using "1.IH"[OF False] digit_char[OF m] by simp
  qed
qed

lemma decimal_hd_zero: "hd (decimal n) = CHR ''0'' \<longleftrightarrow> n = 0"
proof (induction n rule: decimal.induct)
  case (1 n)
  show ?case
  proof (cases "n < 10")
    case True
    have "(char_of (48 + n) = CHR ''0'') = ((of_char (char_of (48 + n)) :: nat) = of_char (CHR ''0''))"
      by (rule char_code_eq)
    with True show ?thesis by (simp add: decimal_small)
  next
    case False
    from False have d: "decimal n = decimal (n div 10) @ [char_of (48 + n mod 10)]"
      by (rule decimal_large)
    from False have "n div 10 \<noteq> 0" by simp
    with "1.IH"[OF False] have "hd (decimal (n div 10)) \<noteq> CHR ''0''" by simp
    moreover have "hd (decimal n) = hd (decimal (n div 10))"
      unfolding d using decimal_digits[of "n div 10"] by simp
    ultimately show ?thesis using False by simp
  qed
qed

text \<open>A text that cannot continue a number.\<close>

definition delimited :: "string \<Rightarrow> bool" where
  "delimited rest = (case rest of [] \<Rightarrow> True | c # _ \<Rightarrow> c \<in> set '',]}'')"

lemma digits_value_stop: "delimited rest \<Longrightarrow> digits_value acc rest = (acc, rest)"
  by (cases rest) (auto simp: delimited_def is_digit_def)

lemma lex_decimal:
  assumes "delimited rest" and "int n \<le> 9007199254740992"
  shows "lex_number (decimal n @ rest) = Inr (int n, rest)"
proof -
  obtain d ds where dd: "decimal n = d # ds" using decimal_digits[of n] by (cases "decimal n") auto
  then have dig: "is_digit d" using decimal_digits[of n] by simp
  then have nm: "d \<noteq> CHR ''-''" by (auto simp: is_digit_def)
  have stop: "\<not> (case rest of [] \<Rightarrow> False | r # _ \<Rightarrow> r = CHR ''.'' \<or> r = CHR ''e'' \<or> r = CHR ''E'')"
    using assms(1) by (cases rest) (auto simp: delimited_def)
  show ?thesis
  proof (cases "n = 0")
    case True
    then have "decimal n = ''0''" by (simp add: decimal_small char_of_eq_iff)
    then show ?thesis using stop by (simp add: lex_number_def is_digit_def True)
  next
    case False
    then have nz: "d \<noteq> CHR ''0''" using decimal_hd_zero[of n] dd by simp
    have "digits_value 0 (decimal n @ rest) = (int n, rest)"
      using digits_value_decimal[of 0 n rest] digits_value_stop[OF assms(1)] by simp
    then have "digits_value 0 (d # ds @ rest) = (int n, rest)" using dd by simp
    then show ?thesis
      using dig nm nz stop assms(2) unfolding dd
      by (simp add: lex_number_def Let_def del: digits_value.simps)
  qed
qed

lemma lex_number_text:
  assumes "delimited rest" and "\<bar>n\<bar> \<le> 9007199254740992"
  shows "lex_number (number_text n @ rest) = Inr (n, rest)"
proof (cases "n < 0")
  case False
  then have i: "int (nat n) = n" by simp
  with assms(2) have "int (nat n) \<le> 9007199254740992" by simp
  from lex_decimal[OF assms(1) this] have "lex_number (decimal (nat n) @ rest) = Inr (n, rest)"
    by (simp only: i)
  with False show ?thesis by (simp add: number_text_def)
next
  case True
  define m where "m = nat (- n)"
  have mn: "int m = - n" and mp: "m \<noteq> 0" using True by (simp_all add: m_def)
  obtain d ds where dd: "decimal m = d # ds" using decimal_digits[of m] by (cases "decimal m") auto
  then have dig: "is_digit d" using decimal_digits[of m] by simp
  have nz: "d \<noteq> CHR ''0''" using decimal_hd_zero[of m] dd mp by simp
  have stop: "\<not> (case rest of [] \<Rightarrow> False | r # _ \<Rightarrow> r = CHR ''.'' \<or> r = CHR ''e'' \<or> r = CHR ''E'')"
    using assms(1) by (cases rest) (auto simp: delimited_def)
  have "digits_value 0 (decimal m @ rest) = (int m, rest)"
    using digits_value_decimal[of 0 m rest] digits_value_stop[OF assms(1)] by simp
  then have dv: "digits_value 0 (d # ds @ rest) = (- n, rest)" using dd mn by simp
  have "number_text n @ rest = CHR ''-'' # d # ds @ rest"
    using True dd by (simp add: number_text_def m_def)
  then show ?thesis
    using dig nz stop assms(2) dv True
    by (simp add: lex_number_def Let_def del: digits_value.simps)
qed

text \<open>The tokens of the text that \<^verbatim>\<open>JSON.stringify\<close> writes for a value.\<close>

fun tokens_of :: "json \<Rightarrow> token list"
  and tokens_elements :: "json list \<Rightarrow> token list list"
  and tokens_members :: "(string \<times> json) list \<Rightarrow> token list list"
where
  "tokens_of JUndefined = [TNull]"
| "tokens_of JNull = [TNull]"
| "tokens_of (JBool b) = [if b then TTrue else TFalse]"
| "tokens_of (JNum n) = [TNum n]"
| "tokens_of (JStr s) = [TStr s]"
| "tokens_of (JArr xs) = TLBrack # join [TComma] (tokens_elements xs) @ [TRBrack]"
| "tokens_of (JObj kvs) = TLBrace # join [TComma] (tokens_members kvs) @ [TRBrace]"
| "tokens_elements [] = []"
| "tokens_elements (x # xs) = tokens_of x # tokens_elements xs"
| "tokens_members [] = []"
| "tokens_members ((k, v) # kvs) = (TStr k # TColon # tokens_of v) # tokens_members kvs"

text \<open>
  The values that \<^verbatim>\<open>JSON.parse\<close> gives back as they were written: no \<^verbatim>\<open>undefined\<close> inside,
  integers within the exact range, and objects whose names are distinct and are not
  array indices (those would be enumerated first).
\<close>

fun wf_json :: "json \<Rightarrow> bool"
  and wf_elements :: "json list \<Rightarrow> bool"
  and wf_members :: "(string \<times> json) list \<Rightarrow> bool"
where
  "wf_json JUndefined = False"
| "wf_json JNull = True"
| "wf_json (JBool b) = True"
| "wf_json (JNum n) = (\<bar>n\<bar> \<le> 9007199254740992)"
| "wf_json (JStr s) = True"
| "wf_json (JArr xs) = wf_elements xs"
| "wf_json (JObj kvs) = (wf_members kvs \<and> distinct (map fst kvs))"
| "wf_elements [] = True"
| "wf_elements (x # xs) = (wf_json x \<and> wf_elements xs)"
| "wf_members [] = True"
| "wf_members ((k, v) # kvs) = (\<not> is_array_index k \<and> wf_json v \<and> wf_members kvs)"

text \<open>A token list put before what a lexer run gives.\<close>

definition cons_tokens :: "token list \<Rightarrow> js_error + token list \<Rightarrow> js_error + token list" where
  "cons_tokens ts r = (case r of Inl e \<Rightarrow> Inl e | Inr us \<Rightarrow> Inr (ts @ us))"

lemma cons_tokens_simps [simp]:
  "cons_tokens [] r = r"
  "cons_tokens (t # ts) r = cons_token t (cons_tokens ts r)"
  "cons_tokens (ts @ us) r = cons_tokens ts (cons_tokens us r)"
  by (auto simp: cons_tokens_def cons_token_def split: sum.splits)

lemma join_Cons: "join sep (x # xs) = (if xs = [] then x else x @ sep @ join sep xs)"
  by (cases xs) simp_all

lemma stringify_elements_Nil: "stringify_elements xs = [] \<longleftrightarrow> xs = []"
  by (cases xs) simp_all

lemma wf_json_defined: "wf_json v \<Longrightarrow> v \<noteq> JUndefined"
  by auto

lemma stringify_members_Nil: "wf_members kvs \<Longrightarrow> stringify_members kvs = [] \<longleftrightarrow> kvs = []"
  by (cases kvs) (auto dest: wf_json_defined split: if_splits)

lemma tokens_elements_Nil: "tokens_elements xs = [] \<longleftrightarrow> xs = []"
  by (cases xs) simp_all

lemma tokens_members_Nil: "tokens_members kvs = [] \<longleftrightarrow> kvs = []"
  by (cases kvs) auto

lemma digit_not_special:
  assumes "c = CHR ''-'' \<or> is_digit c"
  shows "\<not> is_ws c" "c \<noteq> CHR ''{''" "c \<noteq> CHR ''}''" "c \<noteq> CHR ''[''" "c \<noteq> CHR '']''"
    "c \<noteq> CHR '':''" "c \<noteq> CHR '',''" "c \<noteq> CHR 0x22"
  using assms by (auto simp: is_digit_def is_ws_def)

lemma number_text_start: "\<exists>c cs. number_text n = c # cs \<and> (c = CHR ''-'' \<or> is_digit c)"
proof (cases "n < 0")
  case True
  then show ?thesis by (simp add: number_text_def)
next
  case False
  obtain d ds where "decimal (nat n) = d # ds" "is_digit d"
    using decimal_digits[of "nat n"] by (cases "decimal (nat n)") auto
  with False show ?thesis by (simp add: number_text_def)
qed

lemma lex_number_token:
  assumes "delimited rest" and "\<bar>n\<bar> \<le> 9007199254740992"
  shows "lex (number_text n @ rest) = cons_token (TNum n) (lex rest)"
proof -
  from number_text_start obtain c cs where nt: "number_text n = c # cs"
    and st: "c = CHR ''-'' \<or> is_digit c" by blast
  from lex_number_text[OF assms] have "lex_number (c # cs @ rest) = Inr (n, rest)"
    by (simp add: nt)
  then show ?thesis
    using st digit_not_special[OF st] by (simp add: nt)
qed

lemma lex_string_token:
  "lex (QuoteJSONString s @ rest) = cons_token (TStr s) (lex rest)"
  by (simp add: QuoteJSONString_def is_ws_def lex_string_quoted)

lemma delimited_simps [simp]:
  "delimited (CHR '','' # t)" "delimited (CHR '']'' # t)" "delimited (CHR ''}'' # t)" "delimited []"
  by (simp_all add: delimited_def)

lemma lex_punct [simp]:
  "lex (CHR '','' # t) = cons_token TComma (lex t)"
  "lex (CHR '':'' # t) = cons_token TColon (lex t)"
  "lex (CHR ''['' # t) = cons_token TLBrack (lex t)"
  "lex (CHR '']'' # t) = cons_token TRBrack (lex t)"
  "lex (CHR ''{'' # t) = cons_token TLBrace (lex t)"
  "lex (CHR ''}'' # t) = cons_token TRBrace (lex t)"
  by (simp_all add: is_ws_def)

lemma lex_literals:
  "lex (''null'' @ t) = cons_token TNull (lex t)"
  "lex (''true'' @ t) = cons_token TTrue (lex t)"
  "lex (''false'' @ t) = cons_token TFalse (lex t)"
  by (simp_all add: is_ws_def is_digit_def)

declare lex.simps [simp del]

lemma lex_stringify:
  "wf_json j \<Longrightarrow> delimited rest \<Longrightarrow>
     lex (JSON_stringify j @ rest) = cons_tokens (tokens_of j) (lex rest)"
  "wf_elements xs \<Longrightarrow>
     lex (join '','' (stringify_elements xs) @ CHR '']'' # rest)
       = cons_tokens (join [TComma] (tokens_elements xs)) (lex (CHR '']'' # rest))"
  "wf_members kvs \<Longrightarrow>
     lex (join '','' (stringify_members kvs) @ CHR ''}'' # rest)
       = cons_tokens (join [TComma] (tokens_members kvs)) (lex (CHR ''}'' # rest))"
proof (induction j and xs and kvs arbitrary: rest and rest and rest
       rule: wf_json_wf_elements_wf_members.induct)
  case 1
  then show ?case by simp
next
  case 2
  show ?case using lex_literals(1)[of rest] by simp
next
  case (3 b)
  show ?case using lex_literals(2,3)[of rest] by simp
next
  case (4 n)
  then show ?case by (simp add: lex_number_token)
next
  case (5 s)
  show ?case by (simp add: lex_string_token)
next
  case (6 xs)
  then show ?case by simp
next
  case (7 kvs)
  then show ?case by simp
next
  case 8
  show ?case by simp
next
  case (9 x xs)
  from "9.prems" have wx: "wf_json x" and wxs: "wf_elements xs" by simp_all
  show ?case
  proof (cases "xs = []")
    case True
    with "9.IH"(1)[OF wx, of "CHR '']'' # rest"] show ?thesis by simp
  next
    case False
    with "9.IH"(1)[OF wx, of "CHR '','' # join '','' (stringify_elements xs) @ CHR '']'' # rest"]
      "9.IH"(2)[OF wxs, of rest]
    show ?thesis
      by (simp add: join_Cons stringify_elements_Nil tokens_elements_Nil)
  qed
next
  case 10
  show ?case by simp
next
  case (11 k v kvs)
  from "11.prems" have wv: "wf_json v" and wk: "wf_members kvs" and nu: "v \<noteq> JUndefined"
    by auto
  show ?case
  proof (cases "kvs = []")
    case True
    with "11.IH"(1)[OF wv, of "CHR ''}'' # rest"] nu show ?thesis
      by (simp add: lex_string_token)
  next
    case False
    with "11.IH"(1)[OF wv, of "CHR '','' # join '','' (stringify_members kvs) @ CHR ''}'' # rest"]
      "11.IH"(2)[OF wk, of rest] nu wk
    show ?thesis
      by (simp add: join_Cons stringify_members_Nil tokens_members_Nil lex_string_token)
  qed
qed

text \<open>The parser run on the tokens left, from the outcome of a step.\<close>

definition continue :: "js_error + (mode \<times> frame list) \<Rightarrow> token list \<Rightarrow> js_error + json" where
  "continue r ts = (case r of Inl e \<Rightarrow> Inl e | Inr (m, st) \<Rightarrow> parse_tokens m st ts)"

lemma parse_tokens_Cons: "parse_tokens m st (t # ts) = continue (step m st t) ts"
  by (simp add: continue_def)

lemma obj_put_fresh:
  "k \<notin> fst ` set kvs \<Longrightarrow> \<not> is_array_index k \<Longrightarrow> obj_put k v kvs = kvs @ [(k, v)]"
  by (simp add: obj_put_def map_of_eq_None_iff)

lemma parse_stringified:
  "wf_json j \<Longrightarrow> m = MValue \<or> m = MFirst \<Longrightarrow>
     parse_tokens m st (tokens_of j @ ts) = continue (deliver j st) ts"
  "wf_elements xs \<Longrightarrow> xs \<noteq> [] \<Longrightarrow> m = MValue \<or> m = MFirst \<Longrightarrow>
     parse_tokens m (FArr acc # st) (join [TComma] (tokens_elements xs) @ TRBrack # ts)
       = continue (deliver (JArr (rev acc @ xs)) st) ts"
  "wf_members kvs \<Longrightarrow> kvs \<noteq> [] \<Longrightarrow> distinct (map fst (mem @ kvs)) \<Longrightarrow>
   m = MKeyOrClose \<or> m = MKey \<Longrightarrow>
     parse_tokens m (FObj mem # st) (join [TComma] (tokens_members kvs) @ TRBrace # ts)
       = continue (deliver (JObj (mem @ kvs)) st) ts"
proof (induction j and xs and kvs arbitrary: m st ts and m acc st ts and m mem st ts
       rule: wf_json_wf_elements_wf_members.induct)
  case 1
  then show ?case by simp
next
  case 2
  then show ?case by (auto simp: continue_def)
next
  case (3 b)
  then show ?case by (auto simp: continue_def)
next
  case (4 n)
  then show ?case by (auto simp: continue_def)
next
  case (5 s)
  then show ?case by (auto simp: continue_def)
next
  case (6 xs)
  from "6.prems" have w: "wf_elements xs" by simp
  have open_arr: "step m st TLBrack = Inr (MFirst, FArr [] # st)" using "6.prems"(2) by auto
  show ?case
  proof (cases "xs = []")
    case True
    then show ?thesis by (simp add: parse_tokens_Cons open_arr continue_def)
  next
    case False
    from "6.IH"[OF w False, of MFirst "[]" st ts] show ?thesis
      by (simp add: parse_tokens_Cons open_arr continue_def)
  qed
next
  case (7 kvs)
  from "7.prems" have w: "wf_members kvs" and d: "distinct (map fst kvs)" by simp_all
  have open_obj: "step m st TLBrace = Inr (MKeyOrClose, FObj [] # st)" using "7.prems"(2) by auto
  show ?case
  proof (cases "kvs = []")
    case True
    then show ?thesis by (simp add: parse_tokens_Cons open_obj continue_def)
  next
    case False
    from "7.IH"[OF w False, of "[]" MKeyOrClose st ts] d show ?thesis
      by (simp add: parse_tokens_Cons open_obj continue_def)
  qed
next
  case 8
  then show ?case by simp
next
  case (9 x xs)
  from "9.prems" have wx: "wf_json x" and wxs: "wf_elements xs" by simp_all
  have one: "parse_tokens m (FArr acc # st) (tokens_of x @ rest)
             = parse_tokens MAfter (FArr (x # acc) # st) rest" for rest
    using "9.IH"(1)[OF wx "9.prems"(3), of "FArr acc # st" rest] by (simp add: continue_def)
  show ?case
  proof (cases "xs = []")
    case True
    then show ?thesis using one[of "TRBrack # ts"] by (simp add: continue_def)
  next
    case False
    have "parse_tokens MValue (FArr (x # acc) # st)
            (join [TComma] (tokens_elements xs) @ TRBrack # ts)
          = continue (deliver (JArr (rev (x # acc) @ xs)) st) ts"
      using "9.IH"(2) wx wxs False by blast
    then show ?thesis
      using False one[of "TComma # join [TComma] (tokens_elements xs) @ TRBrack # ts"]
      by (simp add: join_Cons tokens_elements_Nil parse_tokens_Cons continue_def)
  qed
next
  case 10
  then show ?case by simp
next
  case (11 k v kvs)
  from "11.prems" have wv: "wf_json v" and wk: "wf_members kvs" and ni: "\<not> is_array_index k"
    and fresh: "k \<notin> fst ` set mem"
    and dist: "distinct (map fst ((mem @ [(k, v)]) @ kvs))"
    by auto
  have key: "step m (FObj mem # st) (TStr k) = Inr (MColon, FKey mem k # st)"
    using "11.prems"(4) by auto
  have one: "parse_tokens m (FObj mem # st) (TStr k # TColon # tokens_of v @ rest)
             = parse_tokens MAfter (FObj (mem @ [(k, v)]) # st) rest" for rest
    using "11.IH"(1)[of MValue "FKey mem k # st" rest] ni wv obj_put_fresh[OF fresh ni, of v]
    by (simp add: parse_tokens_Cons key continue_def)
  show ?case
  proof (cases "kvs = []")
    case True
    then show ?thesis using one[of "TRBrace # ts"] by (simp add: continue_def)
  next
    case False
    have "parse_tokens MKey (FObj (mem @ [(k, v)]) # st)
            (join [TComma] (tokens_members kvs) @ TRBrace # ts)
          = continue (deliver (JObj ((mem @ [(k, v)]) @ kvs)) st) ts"
      using "11.IH"(2) ni wv wk False dist by blast
    then show ?thesis
      using False one[of "TComma # join [TComma] (tokens_members kvs) @ TRBrace # ts"]
      by (simp add: join_Cons tokens_members_Nil parse_tokens_Cons continue_def)
  qed
qed

lemma JSON_parse_stringify: "wf_json j \<Longrightarrow> JSON_parse (JSON_stringify j) = Inr j"
  using lex_stringify(1)[of j "[]"] parse_stringified(1)[of j MValue "[]" "[]"]
  by (simp add: JSON_parse_def lex.simps(1) cons_tokens_def continue_def)

lemma percent_octet_percent:
  "m < 256 \<Longrightarrow> percent_octet (percent m @ t) = Some (m, t)"
proof -
  assume m: "m < 256"
  then have "m div 16 < 16" by simp
  then have h1: "hex_value (hex_upper (m div 16)) = Some (m div 16)" by (rule hex_upper_value)
  have h2: "hex_value (hex_upper (m mod 16)) = Some (m mod 16)" by (rule hex_upper_value) simp
  have "m div 16 * 16 + m mod 16 = m" by simp
  then show ?thesis by (simp add: percent_octet_def percent_def h1 h2)
qed

lemma percent_Cons: "\<exists>cs. percent m @ t = CHR ''%'' # cs"
  by (simp add: percent_def)

lemma decode_one_octet:
  "percent_octet (CHR ''%'' # cs) = Some (b, rest) \<Longrightarrow> b < 128 \<Longrightarrow>
   decodeURIComponent (CHR ''%'' # cs) = cons_char (char_of b) (decodeURIComponent rest)"
  by simp

lemma decode_two_octets:
  "percent_octet (CHR ''%'' # cs) = Some (b, rest) \<Longrightarrow> b = 194 \<or> b = 195 \<Longrightarrow>
   percent_octet rest = Some (b2, rest2) \<Longrightarrow> 128 \<le> b2 \<Longrightarrow> b2 < 192 \<Longrightarrow>
   decodeURIComponent (CHR ''%'' # cs)
     = cons_char (char_of ((b - 192) * 64 + (b2 - 128))) (decodeURIComponent rest2)"
  by auto

lemma decode_encoded_char:
  "decodeURIComponent (encode_char c @ t) = cons_char c (decodeURIComponent t)"
proof -
  define n where "n = (of_char c :: nat)"
  have cn: "char_of n = c" and n256: "n < 256" by (simp_all add: n_def)
  show ?thesis
  proof (cases "unreserved c")
    case True
    then have "c \<noteq> CHR ''%''" by (auto simp: unreserved_def)
    with True show ?thesis by (simp add: encode_char_def)
  next
    case nu: False
    show ?thesis
    proof (cases "n < 128")
      case True
      with nu have e: "encode_char c = percent n" by (simp add: encode_char_def n_def)
      obtain cs where pc: "percent n @ t = CHR ''%'' # cs" using percent_Cons by blast
      have "percent_octet (CHR ''%'' # cs) = Some (n, t)"
        using percent_octet_percent[OF n256, of t] by (simp only: pc)
      from decode_one_octet[OF this True]
      have "decodeURIComponent (percent n @ t) = cons_char (char_of n) (decodeURIComponent t)"
        by (simp only: pc)
      then show ?thesis by (simp only: e cn)
    next
      case False
      with nu have e: "encode_char c = percent (192 + n div 64) @ percent (128 + n mod 64)"
        by (simp add: encode_char_def n_def Let_def)
      have "128 div 64 \<le> n div 64" using False by (intro div_le_mono) simp
      moreover have "n div 64 < 4" using n256 by (intro less_mult_imp_div_less) simp
      ultimately have d: "n div 64 = 2 \<or> n div 64 = 3" by auto
      then have b: "192 + n div 64 = 194 \<or> 192 + n div 64 = 195"
        and b256: "192 + n div 64 < 256" by auto
      have b2: "128 \<le> 128 + n mod 64" "128 + n mod 64 < 192" "128 + n mod 64 < 256" by simp_all
      have recompose: "(192 + n div 64 - 192) * 64 + (128 + n mod 64 - 128) = n" by simp
      obtain cs where pc: "percent (192 + n div 64) @ percent (128 + n mod 64) @ t = CHR ''%'' # cs"
        using percent_Cons by blast
      have o1: "percent_octet (CHR ''%'' # cs)
                = Some (192 + n div 64, percent (128 + n mod 64) @ t)"
        using percent_octet_percent[OF b256, of "percent (128 + n mod 64) @ t"] by (simp only: pc)
      have o2: "percent_octet (percent (128 + n mod 64) @ t) = Some (128 + n mod 64, t)"
        by (rule percent_octet_percent[OF b2(3)])
      from decode_two_octets[OF o1 b o2 b2(1) b2(2)]
      have "decodeURIComponent (percent (192 + n div 64) @ percent (128 + n mod 64) @ t)
            = cons_char (char_of n) (decodeURIComponent t)"
        by (simp only: pc recompose)
      then show ?thesis by (simp only: e cn append_assoc)
    qed
  qed
qed

lemma decode_encode: "decodeURIComponent (encodeURIComponent s) = Inr s"
  by (induction s) (simp_all add: encodeURIComponent_def decode_encoded_char cons_char_def)

lemma hex_upper_range: "d < 16 \<Longrightarrow> hex_upper d \<in> set ''0123456789ABCDEF''"
  unfolding hex_upper_def by (rule nth_mem) simp

lemma percent_chars: "m < 256 \<Longrightarrow> set (percent m) \<subseteq> set ''%0123456789ABCDEF''"
proof -
  assume "m < 256"
  then have "m div 16 < 16" by simp
  from hex_upper_range[OF this] hex_upper_range[of "m mod 16"] show ?thesis
    by (simp add: percent_def)
qed

lemma encode_char_chars:
  "x \<in> set (encode_char c) \<Longrightarrow> unreserved x \<or> x \<in> set ''%0123456789ABCDEF''"
proof -
  assume x: "x \<in> set (encode_char c)"
  define n where "n = (of_char c :: nat)"
  have n256: "n < 256" by (simp add: n_def)
  show ?thesis
  proof (cases "unreserved c")
    case True
    with x show ?thesis by (simp add: encode_char_def)
  next
    case nu: False
    show ?thesis
    proof (cases "n < 128")
      case True
      with nu x have "x \<in> set (percent n)" by (simp add: encode_char_def n_def)
      with percent_chars[OF n256] show ?thesis by blast
    next
      case False
      have "n div 64 < 4" using n256 by (intro less_mult_imp_div_less) simp
      then have "192 + n div 64 < 256" by simp
      moreover have "128 + n mod 64 < 256" by simp
      moreover from False nu x
      have "x \<in> set (percent (192 + n div 64)) \<or> x \<in> set (percent (128 + n mod 64))"
        by (simp add: encode_char_def n_def Let_def)
      ultimately show ?thesis using percent_chars by blast
    qed
  qed
qed

lemma encoded_chars:
  "x \<in> set (encodeURIComponent s) \<Longrightarrow> unreserved x \<or> x \<in> set ''%0123456789ABCDEF''"
  by (auto simp: encodeURIComponent_def dest: encode_char_chars)

lemma encoded_safe:
  "CHR '';'' \<notin> set (encodeURIComponent s)" "CHR ''='' \<notin> set (encodeURIComponent s)"
  "CHR '' '' \<notin> set (encodeURIComponent s)" "char_of (9 :: nat) \<notin> set (encodeURIComponent s)"
proof -
  show "CHR '';'' \<notin> set (encodeURIComponent s)"
    using encoded_chars[of "CHR '';''" s] by (auto simp: unreserved_def)
  show "CHR ''='' \<notin> set (encodeURIComponent s)"
    using encoded_chars[of "CHR ''=''" s] by (auto simp: unreserved_def)
  show "CHR '' '' \<notin> set (encodeURIComponent s)"
    using encoded_chars[of "CHR '' ''" s] by (auto simp: unreserved_def)
  show "char_of (9 :: nat) \<notin> set (encodeURIComponent s)"
    using encoded_chars[of "char_of (9 :: nat)" s] by (auto simp: unreserved_def char_of_eq_iff)
qed

text \<open>What \<^verbatim>\<open>uuidv4()\<close> and \<^verbatim>\<open>toISOString()\<close> return is made of these characters.\<close>

definition uuid_text :: "string \<Rightarrow> bool" where
  "uuid_text u = list_all (\<lambda>c. c \<in> set ''0123456789abcdef-'') u"

definition iso_text :: "string \<Rightarrow> bool" where
  "iso_text t = list_all (\<lambda>c. c \<in> set ''0123456789-:.TZ'') t"

definition plain_text :: "string \<Rightarrow> bool" where
  "plain_text s = list_all (\<lambda>c. c \<in> set ''0123456789abcdef-:.TZ'') s"

lemma uuid_plain: "uuid_text u \<Longrightarrow> plain_text u"
proof -
  have "set ''0123456789abcdef-'' \<subseteq> set ''0123456789abcdef-:.TZ''" by simp
  then show "uuid_text u \<Longrightarrow> plain_text u"
    unfolding uuid_text_def plain_text_def list_all_iff by blast
qed

lemma iso_plain: "iso_text t \<Longrightarrow> plain_text t"
proof -
  have "set ''0123456789-:.TZ'' \<subseteq> set ''0123456789abcdef-:.TZ''" by simp
  then show "iso_text t \<Longrightarrow> plain_text t"
    unfolding iso_text_def plain_text_def list_all_iff by blast
qed

lemma plain_quote_char: "\<forall>c\<in>set ''0123456789abcdef-:.TZ''. quote_char c = [c]"
  by (simp add: quote_char_def)

lemma plain_quote: "plain_text s \<Longrightarrow> concat (map quote_char s) = s"
proof (induction s)
  case Nil
  show ?case by simp
next
  case (Cons c s)
  then have c: "c \<in> set ''0123456789abcdef-:.TZ''" and s: "plain_text s"
    by (simp_all add: plain_text_def)
  from c plain_quote_char have "quote_char c = [c]" by blast
  with Cons.IH[OF s] show ?case by simp
qed

lemma plain_chars:
  "plain_text s \<Longrightarrow> CHR '';'' \<notin> set s \<and> CHR ''='' \<notin> set s \<and> CHR ''%'' \<notin> set s"
proof -
  have "CHR '';'' \<notin> set ''0123456789abcdef-:.TZ''" "CHR ''='' \<notin> set ''0123456789abcdef-:.TZ''"
    "CHR ''%'' \<notin> set ''0123456789abcdef-:.TZ''" by simp_all
  then show "plain_text s \<Longrightarrow> CHR '';'' \<notin> set s \<and> CHR ''='' \<notin> set s \<and> CHR ''%'' \<notin> set s"
    unfolding plain_text_def list_all_iff by blast
qed

lemma consentObject_text:
  assumes "plain_text u" "plain_text n1" "plain_text n2"
  shows "JSON_stringify (consentObject u n1 n2) =
    ''{\"consent\":{\"advertising_and_email_signup\":false},\"identity\":{\"fides_user_device_id\":\"''
    @ u @ ''\"},\"fides_meta\":{\"version\":\"0.9.0\",\"createdAt\":\"'' @ n1
    @ ''\",\"updatedAt\":\"'' @ n2 @ ''\"}}''"
  using assms
  by (simp add: consentObject_def QuoteJSONString_def plain_quote quote_char_def)

lemma consentObject_wf: "wf_json (consentObject u n1 n2)"
  by (simp add: consentObject_def is_array_index_def is_digit_def)

lemma consentObject_text_safe:
  assumes "plain_text u" "plain_text n1" "plain_text n2"
  shows "CHR '';'' \<notin> set (JSON_stringify (consentObject u n1 n2))"
    and "CHR ''='' \<notin> set (JSON_stringify (consentObject u n1 n2))"
    and "CHR ''%'' \<notin> set (JSON_stringify (consentObject u n1 n2))"
    and "trim (JSON_stringify (consentObject u n1 n2)) = JSON_stringify (consentObject u n1 n2)"
    and "JSON_stringify (consentObject u n1 n2) \<noteq> []"
proof -
  note t = consentObject_text[OF assms]
  from assms plain_chars show "CHR '';'' \<notin> set (JSON_stringify (consentObject u n1 n2))"
    unfolding t by simp
  from assms plain_chars show "CHR ''='' \<notin> set (JSON_stringify (consentObject u n1 n2))"
    unfolding t by simp
  from assms plain_chars show "CHR ''%'' \<notin> set (JSON_stringify (consentObject u n1 n2))"
    unfolding t by simp
  show "trim (JSON_stringify (consentObject u n1 n2)) = JSON_stringify (consentObject u n1 n2)"
    unfolding t by (rule trim_plain) simp
  show "JSON_stringify (consentObject u n1 n2) \<noteq> []" unfolding t by simp
qed

lemma name_facts:
  "CHR ''='' \<notin> set ''fides_consent''" "CHR '';'' \<notin> set ''fides_consent''"
  "trim ''fides_consent'' = ''fides_consent''" "''fides_consent'' \<noteq> []"
  by (simp_all add: trim_def)

lemma getCookie_stored:
  "jar_ok jar \<Longrightarrow> map_of jar ''fides_consent'' = Some raw \<Longrightarrow>
   getCookie ''fides_consent'' jar
     = (case decodeCookie raw of Inl e \<Rightarrow> Inl e | Inr s \<Rightarrow> Inr (Some s))"
  by (rule getCookie_present) (simp_all add: name_facts)

lemma getCookie_missing:
  "jar_ok jar \<Longrightarrow> map_of jar ''fides_consent'' = None \<Longrightarrow>
   getCookie ''fides_consent'' jar = Inr None"
  by (rule getCookie_absent) (simp_all add: name_facts map_of_eq_None_iff)

text \<open>Writing the cookie of the source's template.\<close>

lemma write_cookie:
  assumes "CHR '';'' \<notin> set v" and "trim v = v"
  shows "set_document_cookie (''fides_consent'' @ ''='' @ v @ ''; path=/; max-age=31536000'') jar
         = jar_put ''fides_consent'' v jar"
  using set_document_cookie_pair[of "''fides_consent''" v jar] assms name_facts by simp

lemma created_jar:
  assumes "jar_ok jar" "plain_text u" "plain_text n1" "plain_text n2"
  defines "written \<equiv> JSON_stringify (consentObject u n1 n2)"
  defines "jar1 \<equiv> set_document_cookie
     (''fides_consent'' @ ''='' @ written @ ''; path=/; max-age=31536000'') jar"
  shows "jar1 = jar_put ''fides_consent'' written jar"
    and "jar_ok jar1"
    and "map_of jar1 ''fides_consent'' = Some written"
    and "getCookie ''fides_consent'' jar1 = Inr (Some written)"
    and "setOrCheckFidesConsentCookie u1 a b jar1 = Inr (consentObject u n1 n2, jar1)"
proof -
  note safe = consentObject_text_safe[OF assms(2,3,4), folded written_def]
  show j: "jar1 = jar_put ''fides_consent'' written jar"
    unfolding jar1_def by (rule write_cookie) (rule safe)+
  show ok: "jar_ok jar1"
    unfolding j using assms(1) name_facts safe(1) by (intro jar_put_ok) simp_all
  show m: "map_of jar1 ''fides_consent'' = Some written"
    unfolding j by (rule jar_put_map_of)
  have d: "decodeCookie written = Inr written"
    unfolding decodeCookie_def by (rule decodeURIComponent_plain) (rule safe)
  show g: "getCookie ''fides_consent'' jar1 = Inr (Some written)"
    using getCookie_stored[OF ok m] d by simp
  have p: "JSON_parse written = Inr (consentObject u n1 n2)"
    unfolding written_def by (rule JSON_parse_stringify) (rule consentObject_wf)
  obtain c cs where t: "written = c # cs" using safe(5) by (cases written) auto
  show "setOrCheckFidesConsentCookie u1 a b jar1 = Inr (consentObject u n1 n2, jar1)"
    using g p unfolding t by (simp add: setOrCheckFidesConsentCookie_def)
qed

text \<open>The three ways a call of \<^const>\<open>setOrCheckFidesConsentCookie\<close> can go.\<close>

lemma ensure_error:
  "setOrCheckFidesConsentCookie u n1 n2 jar = Inl e \<Longrightarrow>
   setOrCheckFidesConsentCookie u1 a b jar = Inl e"
  by (auto simp: setOrCheckFidesConsentCookie_def
           split: sum.splits option.splits list.splits)

lemma ensure_stable:
  assumes "jar_ok jar" "plain_text u" "plain_text n1" "plain_text n2"
    and "setOrCheckFidesConsentCookie u n1 n2 jar = Inr (j, jar1)"
  shows "setOrCheckFidesConsentCookie u1 a b jar1 = Inr (j, jar1)"
proof (cases "\<exists>c cs. getCookie ''fides_consent'' jar = Inr (Some (c # cs))")
  case True
  then obtain c cs where g: "getCookie ''fides_consent'' jar = Inr (Some (c # cs))" by blast
  with assms(5) have "jar1 = jar" and "JSON_parse (c # cs) = Inr j"
    by (auto simp: setOrCheckFidesConsentCookie_def split: sum.splits)
  with g show ?thesis by (simp add: setOrCheckFidesConsentCookie_def)
next
  case False
  with assms(5) have "j = consentObject u n1 n2"
    and "jar1 = set_document_cookie
       (''fides_consent'' @ ''='' @ JSON_stringify (consentObject u n1 n2)
        @ ''; path=/; max-age=31536000'') jar"
    by (auto simp: setOrCheckFidesConsentCookie_def
             split: sum.splits option.splits list.splits)
  with created_jar(5)[OF assms(1-4)] show ?thesis by simp
qed

section \<open>The identity record\<close>

text \<open>
  A sequence of calls of \<^verbatim>\<open>setOrCheckFidesConsentCookie()\<close> on one jar, each with what
  \<^verbatim>\<open>uuidv4()\<close> and the clock would give it: what each call returned or raised, and the jar
  it left.
\<close>

fun ensure_calls ::
  "(string \<times> string \<times> string) list \<Rightarrow> cookie_jar \<Rightarrow> ((js_error + json) \<times> cookie_jar) list" where
  "ensure_calls [] jar = []"
| "ensure_calls ((uuid, now1, now2) # envs) jar =
     (case setOrCheckFidesConsentCookie uuid now1 now2 jar of
        Inl e \<Rightarrow> (Inl e, jar) # ensure_calls envs jar
      | Inr (j, jar1) \<Rightarrow> (Inr j, jar1) # ensure_calls envs jar1)"

text \<open>\<^verbatim>\<open>consentData.identity.fides_user_device_id\<close>, as the effect reads it.\<close>

definition deviceId_of :: "js_error + json \<Rightarrow> js_error + json" where
  "deviceId_of r =
     (case r of
        Inl e \<Rightarrow> Inl e
      | Inr consentData \<Rightarrow>
          (case member consentData ''identity'' of
             Inl e \<Rightarrow> Inl e
           | Inr identity \<Rightarrow> member identity ''fides_user_device_id''))"

lemma ensure_calls_error:
  "(\<And>u a b. setOrCheckFidesConsentCookie u a b jar = Inl e) \<Longrightarrow>
   set (ensure_calls envs jar) \<subseteq> {(Inl e, jar)}"
  by (induction envs) auto

lemma ensure_calls_stable:
  "(\<And>u a b. setOrCheckFidesConsentCookie u a b jar = Inr (j, jar)) \<Longrightarrow>
   set (ensure_calls envs jar) \<subseteq> {(Inr j, jar)}"
  by (induction envs) auto

lemma ensure_creates_only_when_absent:
  "setOrCheckFidesConsentCookie u n1 n2 jar = Inr (j, jar1) \<Longrightarrow>
   jar1 = jar \<or> getCookie ''fides_consent'' jar = Inr None
   \<or> getCookie ''fides_consent'' jar = Inr (Some [])"
  by (auto simp: setOrCheckFidesConsentCookie_def split: sum.splits option.splits list.splits)

lemma ensure_calls_agree:
  assumes "jar_ok jar"
    and "list_all (\<lambda>(uuid, now1, now2). uuid_text uuid \<and> iso_text now1 \<and> iso_text now2) envs"
  shows "\<exists>r jar1.
           (\<forall>x\<in>set (ensure_calls envs jar). x = (r, jar1))
         \<and> (\<forall>x\<in>set (ensure_calls envs jar). \<forall>y\<in>set (ensure_calls envs jar).
               deviceId_of (fst x) = deviceId_of (fst y))
         \<and> (jar1 = jar \<or> getCookie ''fides_consent'' jar = Inr None
              \<or> getCookie ''fides_consent'' jar = Inr (Some []))"
proof (cases envs)
  case Nil
  then show ?thesis by auto
next
  case (Cons env rest)
  obtain u n1 n2 where env: "env = (u, n1, n2)" by (cases env)
  from assms(2) Cons env have ty: "plain_text u" "plain_text n1" "plain_text n2"
    by (simp_all add: uuid_plain iso_plain)
  show ?thesis
  proof (cases "setOrCheckFidesConsentCookie u n1 n2 jar")
    case (Inl e)
    then have "\<And>u1 a b. setOrCheckFidesConsentCookie u1 a b jar = Inl e"
      by (rule ensure_error)
    from ensure_calls_error[OF this, of rest] Inl
    have "set (ensure_calls envs jar) \<subseteq> {(Inl e, jar)}"
      unfolding Cons env by simp
    then have all: "\<forall>x\<in>set (ensure_calls envs jar). x = (Inl e, jar)" by blast
    have same: "\<forall>x\<in>set (ensure_calls envs jar). \<forall>y\<in>set (ensure_calls envs jar).
               deviceId_of (fst x) = deviceId_of (fst y)"
    proof (intro ballI)
      fix x y assume "x \<in> set (ensure_calls envs jar)" "y \<in> set (ensure_calls envs jar)"
      with all have "x = (Inl e, jar)" "y = (Inl e, jar)" by blast+
      then show "deviceId_of (fst x) = deviceId_of (fst y)" by simp
    qed
    show ?thesis
      by (rule exI[of _ "Inl e"], rule exI[of _ jar], intro conjI) (rule all, rule same, simp)
  next
    case (Inr p)
    obtain j jar1 where p: "p = (j, jar1)" by (cases p)
    from Inr p have first: "setOrCheckFidesConsentCookie u n1 n2 jar = Inr (j, jar1)" by simp
    have "\<And>u1 a b. setOrCheckFidesConsentCookie u1 a b jar1 = Inr (j, jar1)"
      by (rule ensure_stable[OF assms(1) ty first])
    from ensure_calls_stable[OF this, of rest] first
    have "set (ensure_calls envs jar) \<subseteq> {(Inr j, jar1)}"
      unfolding Cons env by simp
    then have all: "\<forall>x\<in>set (ensure_calls envs jar). x = (Inr j, jar1)" by blast
    have same: "\<forall>x\<in>set (ensure_calls envs jar). \<forall>y\<in>set (ensure_calls envs jar).
               deviceId_of (fst x) = deviceId_of (fst y)"
    proof (intro ballI)
      fix x y assume "x \<in> set (ensure_calls envs jar)" "y \<in> set (ensure_calls envs jar)"
      with all have "x = (Inr j, jar1)" "y = (Inr j, jar1)" by blast+
      then show "deviceId_of (fst x) = deviceId_of (fst y)" by simp
    qed
    show ?thesis
      by (rule exI[of _ "Inr j"], rule exI[of _ jar1], intro conjI)
         (rule all, rule same, rule ensure_creates_only_when_absent[OF first])
  qed
qed

lemma ensure_calls_jar:
  "getCookie ''fides_consent'' jar \<noteq> Inr None \<Longrightarrow>
   getCookie ''fides_consent'' jar \<noteq> Inr (Some []) \<Longrightarrow>
   \<forall>x\<in>set (ensure_calls envs jar). snd x = jar"
proof (induction envs)
  case Nil
  show ?case by simp
next
  case (Cons env envs)
  obtain u n1 n2 where env: "env = (u, n1, n2)" by (cases env)
  show ?case
  proof (cases "setOrCheckFidesConsentCookie u n1 n2 jar")
    case (Inl e)
    with Cons env show ?thesis by simp
  next
    case (Inr p)
    obtain j jar1 where p: "p = (j, jar1)" by (cases p)
    from ensure_creates_only_when_absent[of u n1 n2 jar j jar1] Inr p Cons.prems
    have "jar1 = jar" by simp
    with Cons env Inr p show ?thesis by simp
  qed
qed



text \<open>
  Claim C1. Calls of \<^verbatim>\<open>setOrCheckFidesConsentCookie\<close> made one after another on the same jar
  all give the same result and leave the same jar, so the device id read from them is the
  same every time, whatever \<^verbatim>\<open>uuidv4()\<close> gives the later calls. The jar is written by no
  call unless the cookie was absent or empty before the first one.
\<close>

theorem ensure_idempotent:
  "(jar_ok jar
      \<and> list_all (\<lambda>(uuid, now1, now2). uuid_text uuid \<and> iso_text now1 \<and> iso_text now2) envs
    \<longrightarrow> (\<exists>r jar1. \<forall>x\<in>set (ensure_calls envs jar). x = (r, jar1))
        \<and> (\<forall>x\<in>set (ensure_calls envs jar). \<forall>y\<in>set (ensure_calls envs jar).
               deviceId_of (fst x) = deviceId_of (fst y)))
   \<and> (getCookie ''fides_consent'' jar = Inr None
        \<or> getCookie ''fides_consent'' jar = Inr (Some [])
        \<or> (\<forall>x\<in>set (ensure_calls envs jar). snd x = jar))"
proof (intro conjI impI)
  assume "jar_ok jar
      \<and> list_all (\<lambda>(uuid, now1, now2). uuid_text uuid \<and> iso_text now1 \<and> iso_text now2) envs"
  then have a: "jar_ok jar"
    "list_all (\<lambda>(uuid, now1, now2). uuid_text uuid \<and> iso_text now1 \<and> iso_text now2) envs"
    by simp_all
  from ensure_calls_agree[OF a] obtain r jar1 where
    all: "\<forall>x\<in>set (ensure_calls envs jar). x = (r, jar1)"
    and same: "\<forall>x\<in>set (ensure_calls envs jar). \<forall>y\<in>set (ensure_calls envs jar).
               deviceId_of (fst x) = deviceId_of (fst y)"
    by blast
  from all show "\<exists>r jar1. \<forall>x\<in>set (ensure_calls envs jar). x = (r, jar1)" by blast
  from same show "\<forall>x\<in>set (ensure_calls envs jar). \<forall>y\<in>set (ensure_calls envs jar).
               deviceId_of (fst x) = deviceId_of (fst y)" .
next
  show "getCookie ''fides_consent'' jar = Inr None
        \<or> getCookie ''fides_consent'' jar = Inr (Some [])
        \<or> (\<forall>x\<in>set (ensure_calls envs jar). snd x = jar)"
    using ensure_calls_jar[of jar envs] by blast
qed

theorem ensure_idempotent_witness:
  "jar_ok []
   \<and> list_all (\<lambda>(uuid, now1, now2). uuid_text uuid \<and> iso_text now1 \<and> iso_text now2)
        [(''1b9d-4bed'', ''2024-01-01T00:00:00.000Z'', ''2024-01-01T00:00:00.001Z''),
         (''ffff-0000'', ''2025-06-30T12:00:00.000Z'', ''2025-06-30T12:00:00.000Z'')]
   \<and> (\<exists>r jar1. list_all (\<lambda>x. x = (r, jar1))
          (ensure_calls
            [(''1b9d-4bed'', ''2024-01-01T00:00:00.000Z'', ''2024-01-01T00:00:00.001Z''),
             (''ffff-0000'', ''2025-06-30T12:00:00.000Z'', ''2025-06-30T12:00:00.000Z'')] []))
   \<and> map (\<lambda>x. deviceId_of (fst x))
        (ensure_calls
            [(''1b9d-4bed'', ''2024-01-01T00:00:00.000Z'', ''2024-01-01T00:00:00.001Z''),
             (''ffff-0000'', ''2025-06-30T12:00:00.000Z'', ''2025-06-30T12:00:00.000Z'')] [])
      = [Inr (JStr ''1b9d-4bed''), Inr (JStr ''1b9d-4bed'')]"
proof -
  let ?envs = "[(''1b9d-4bed'', ''2024-01-01T00:00:00.000Z'', ''2024-01-01T00:00:00.001Z''),
         (''ffff-0000'', ''2025-06-30T12:00:00.000Z'', ''2025-06-30T12:00:00.000Z'')]"
  have ok: "jar_ok []" by (simp add: jar_ok_def)
  have ty: "list_all (\<lambda>(uuid, now1, now2). uuid_text uuid \<and> iso_text now1 \<and> iso_text now2) ?envs"
    by (simp add: uuid_text_def iso_text_def)
  from ensure_idempotent[of "[]" ?envs] ok ty
  have "\<exists>r jar1. \<forall>x\<in>set (ensure_calls ?envs []). x = (r, jar1)" by blast
  then have all: "\<exists>r jar1. list_all (\<lambda>x. x = (r, jar1)) (ensure_calls ?envs [])"
    unfolding list_all_iff .
  have ids: "map (\<lambda>x. deviceId_of (fst x)) (ensure_calls ?envs [])
      = [Inr (JStr ''1b9d-4bed''), Inr (JStr ''1b9d-4bed'')]"
    by code_simp
  from ok ty all ids show ?thesis by (intro conjI)
qed

text \<open>
  Claim C5, as amended. \<^verbatim>\<open>setOrCheckFidesConsentCookie\<close> treats the cookie as absent only when
  it is absent or empty: it then creates the default record. A cookie that is present is
  decoded and parsed: when its text is malformed, the error of the decoding or of the parsing
  is raised out of the call and out of the effect of the mount; otherwise the parsed value is
  returned and the jar is left.
\<close>

theorem setOrCheckFidesConsentCookie_cases:
  assumes "jar_ok jar"
  shows "(case map_of jar ''fides_consent'' of
            None \<Rightarrow> \<exists>jar1. setOrCheckFidesConsentCookie uuid now1 now2 jar
                             = Inr (consentObject uuid now1 now2, jar1)
          | Some raw \<Rightarrow>
              (case decodeCookie raw of
                 Inl e \<Rightarrow> setOrCheckFidesConsentCookie uuid now1 now2 jar = Inl e
                          \<and> useEffect uuid now1 now2 net (initial jar) = Inl e
               | Inr stored \<Rightarrow>
                   if stored = []
                   then \<exists>jar1. setOrCheckFidesConsentCookie uuid now1 now2 jar
                             = Inr (consentObject uuid now1 now2, jar1)
                   else (case JSON_parse stored of
                           Inl e \<Rightarrow> setOrCheckFidesConsentCookie uuid now1 now2 jar = Inl e
                                    \<and> useEffect uuid now1 now2 net (initial jar) = Inl e
                         | Inr j \<Rightarrow> setOrCheckFidesConsentCookie uuid now1 now2 jar
                                      = Inr (j, jar))))"
proof (cases "map_of jar ''fides_consent''")
  case None
  with getCookie_missing[OF assms] show ?thesis
    by (simp add: setOrCheckFidesConsentCookie_def)
next
  case (Some raw)
  from getCookie_stored[OF assms Some] show ?thesis
    by (auto simp: Some setOrCheckFidesConsentCookie_def useEffect_def initial_def
             split: sum.splits list.splits)
qed

theorem setOrCheckFidesConsentCookie_cases_witness:
  "jar_ok [(''fides_consent'', ''%7B'')]
   \<and> setOrCheckFidesConsentCookie ''1b9d-4bed'' ''2024'' ''2024'' [(''fides_consent'', ''%7B'')]
       = Inl SyntaxError
   \<and> useEffect ''1b9d-4bed'' ''2024'' ''2024'' (\<lambda>k r. Failed)
       (initial [(''fides_consent'', ''%7B'')]) = Inl SyntaxError
   \<and> jar_ok [(''fides_consent'', ''%'')]
   \<and> setOrCheckFidesConsentCookie ''1b9d-4bed'' ''2024'' ''2024'' [(''fides_consent'', ''%'')]
       = Inl URIError"
proof -
  have ok: "jar_ok [(''fides_consent'', ''%7B'')]" "jar_ok [(''fides_consent'', ''%'')]"
    by (simp_all add: jar_ok_def)
  have d: "decodeCookie ''%7B'' = Inr ''{''" by code_simp
  have p: "JSON_parse ''{'' = Inl SyntaxError" by code_simp
  have u: "decodeCookie ''%'' = Inl URIError" by code_simp
  from setOrCheckFidesConsentCookie_cases[OF ok(1), of "''1b9d-4bed''" "''2024''" "''2024''" "\<lambda>k r. Failed"]
  have a: "setOrCheckFidesConsentCookie ''1b9d-4bed'' ''2024'' ''2024'' [(''fides_consent'', ''%7B'')]
       = Inl SyntaxError
   \<and> useEffect ''1b9d-4bed'' ''2024'' ''2024'' (\<lambda>k r. Failed)
       (initial [(''fides_consent'', ''%7B'')]) = Inl SyntaxError"
    by (simp add: d p)
  from setOrCheckFidesConsentCookie_cases[OF ok(2), of "''1b9d-4bed''" "''2024''" "''2024''" "\<lambda>k r. Failed"]
  have b: "setOrCheckFidesConsentCookie ''1b9d-4bed'' ''2024'' ''2024'' [(''fides_consent'', ''%'')]
       = Inl URIError"
    by (simp add: u)
  from ok a b show ?thesis by (intro conjI) simp_all
qed

text \<open>A cookie whose text is not JSON: the call raises, and so does the effect.\<close>

theorem malformed_cookie_counterexample:
  "setOrCheckFidesConsentCookie ''1b9d-4bed'' ''2024'' ''2024'' [(''fides_consent'', ''abc'')]
       = Inl SyntaxError
   \<and> useEffect ''1b9d-4bed'' ''2024'' ''2024'' (\<lambda>k r. Failed)
       (initial [(''fides_consent'', ''abc'')]) = Inl SyntaxError"
  by code_simp

section \<open>Updating the consent flag\<close>

lemma obj_put_present:
  "map_of kvs k = Some old \<Longrightarrow>
   obj_put k v kvs = map (\<lambda>(k1, v1). if k1 = k then (k1, v) else (k1, v1)) kvs"
  by (simp add: obj_put_def)

lemma map_update_keys:
  "map fst (map (\<lambda>(k1, v1). if k1 = k then (k1, v) else (k1, v1)) kvs) = map fst kvs"
  by (induction kvs) auto

lemma map_update_keys_comp:
  "map (fst \<circ> (\<lambda>(k1, v1). if k1 = k then (k1, v) else (k1, v1))) kvs = map fst kvs"
  by (induction kvs) auto

lemma map_update_lookup_any:
  "map_of (map (\<lambda>(k1, v1). if k1 = k then (k1, v) else (k1, v1)) kvs) k1
     = (if k1 = k then map_option (\<lambda>old. v) (map_of kvs k) else map_of kvs k1)"
  by (induction kvs) auto

lemma map_update_lookup:
  "map_of kvs k = Some old \<Longrightarrow>
   map_of (map (\<lambda>(k1, v1). if k1 = k then (k1, v) else (k1, v1)) kvs) k1
     = (if k1 = k then Some v else map_of kvs k1)"
  by (simp add: map_update_lookup_any)

lemma map_update_wf:
  "wf_members kvs \<Longrightarrow> wf_json v \<Longrightarrow>
   wf_members (map (\<lambda>(k1, v1). if k1 = k then (k1, v) else (k1, v1)) kvs)"
  by (induction kvs) auto

lemma wf_members_append:
  "wf_members kvs \<Longrightarrow> \<not> is_array_index k \<Longrightarrow> wf_json v \<Longrightarrow> wf_members (kvs @ [(k, v)])"
  by (induction kvs) auto

text \<open>Setting a member whose name is not an array index.\<close>

lemma obj_put_lookup:
  "\<not> is_array_index k \<Longrightarrow>
   map_of (obj_put k v kvs) k1 = (if k1 = k then Some v else map_of kvs k1)"
proof (cases "map_of kvs k")
  case None
  assume "\<not> is_array_index k"
  with None show ?thesis
    by (auto simp: obj_put_def map_of_append map_add_def split: option.splits)
next
  case (Some old)
  then show ?thesis by (simp add: obj_put_present map_update_lookup)
qed

lemma obj_put_wf:
  assumes "wf_members kvs" "distinct (map fst kvs)" "\<not> is_array_index k" "wf_json v"
  shows "wf_members (obj_put k v kvs) \<and> distinct (map fst (obj_put k v kvs))"
proof (cases "map_of kvs k")
  case None
  then have "k \<notin> fst ` set kvs" by (simp add: map_of_eq_None_iff)
  with None assms show ?thesis by (simp add: obj_put_def wf_members_append)
next
  case (Some old)
  with assms show ?thesis
    by (simp add: obj_put_present map_update_keys_comp map_update_wf)
qed

lemma wf_members_value:
  "wf_members kvs \<Longrightarrow> map_of kvs k = Some v \<Longrightarrow> wf_json v"
  by (induction kvs) (auto split: if_splits)

lemma names_not_indices:
  "\<not> is_array_index ''consent''" "\<not> is_array_index ''advertising_and_email_signup''"
  by (simp_all add: is_array_index_def is_digit_def)

lemma stringify_object_shape:
  "\<exists>cs. JSON_stringify (JObj kvs) = CHR ''{'' # cs"
  by simp

text \<open>A stored record with a flag and members the form does not know.\<close>

definition example_record :: json where
  "example_record =
     JObj [(''consent'', JObj [(''advertising_and_email_signup'', JBool False),
                              (''analytics'', JBool True)]),
           (''identity'', JObj [(''fides_user_device_id'', JStr ''1b9d-4bed'')]),
           (''fides_meta'', JObj [(''version'', JStr ''0.9.0''),
                                  (''createdAt'', JStr ''2024-01-01T00:00:00.000Z''),
                                  (''updatedAt'', JStr ''2024-01-01T00:00:00.001Z'')]),
           (''note'', JArr [JNum 7, JStr ''a;b=c %'', JNull])]"

definition example_jar :: cookie_jar where
  "example_jar = [(''fides_consent'', encodeCookie (JSON_stringify example_record))]"

lemma example_jar_ok: "jar_ok example_jar"
  unfolding jar_ok_def by code_simp

lemma example_record_wf: "wf_json example_record"
  by (simp add: example_record_def is_array_index_def is_digit_def)

text \<open>
  Claim C6. \<^verbatim>\<open>updateConsentCookie\<close> stores the record it has read with the member
  \<^verbatim>\<open>advertising_and_email_signup\<close> of \<^verbatim>\<open>consent\<close> set to the flag of the form. Every other
  member of \<^verbatim>\<open>consent\<close> and every other member of the record keeps its value, and the
  members of the record keep their names and their order. The cookie written decodes to the
  serialisation of that record, and the next load returns the record.
\<close>

theorem updateConsentCookie_frame:
  assumes "jar_ok jar"
    and "map_of jar ''fides_consent'' = Some raw"
    and "decodeCookie raw = Inr stored" and "stored \<noteq> []"
    and "JSON_parse stored = Inr record"
    and "member record ''consent'' = Inr (JObj flags)"
  shows "\<exists>record1 flags1 jar1.
           updateConsentCookie b jar = Inr jar1
         \<and> jar1 = jar_put ''fides_consent'' (encodeCookie (JSON_stringify record1)) jar
         \<and> getCookie ''fides_consent'' jar1 = Inr (Some (JSON_stringify record1))
         \<and> member record1 ''consent'' = Inr (JObj flags1)
         \<and> member (JObj flags1) ''advertising_and_email_signup'' = Inr (JBool b)
         \<and> (\<forall>k. k \<noteq> ''advertising_and_email_signup''
                \<longrightarrow> member (JObj flags1) k = member (JObj flags) k)
         \<and> (\<forall>k. k \<noteq> ''consent'' \<longrightarrow> member record1 k = member record k)
         \<and> (\<exists>kvs kvs1. record = JObj kvs \<and> record1 = JObj kvs1 \<and> map fst kvs1 = map fst kvs)
         \<and> (wf_json record \<longrightarrow>
               setOrCheckFidesConsentCookie uuid now1 now2 jar1 = Inr (record1, jar1))"
proof -
  from assms(6) obtain kvs where r: "record = JObj kvs"
    and c: "map_of kvs ''consent'' = Some (JObj flags)"
    by (cases "record") (auto split: option.splits)
  define flags1 where "flags1 = obj_put ''advertising_and_email_signup'' (JBool b) flags"
  define kvs1 where "kvs1 = obj_put ''consent'' (JObj flags1) kvs"
  define record1 where "record1 = JObj kvs1"
  define written where "written = encodeCookie (JSON_stringify record1)"
  define jar1 where "jar1 = jar_put ''fides_consent'' written jar"
  have kv1: "kvs1 = map (\<lambda>(k1, v1). if k1 = ''consent'' then (k1, JObj flags1) else (k1, v1)) kvs"
    unfolding kvs1_def by (rule obj_put_present[OF c])
  have assign: "assign_member record ''consent'' ''advertising_and_email_signup'' (JBool b)
                = Inr record1"
    using c by (simp add: assign_member_def r record1_def kvs1_def flags1_def)
  have g: "getCookie ''fides_consent'' jar = Inr (Some stored)"
    using getCookie_stored[OF assms(1,2)] assms(3) by simp
  have safe: "CHR '';'' \<notin> set written" "CHR '' '' \<notin> set written"
    "char_of (9 :: nat) \<notin> set written"
    unfolding written_def encodeCookie_def by (rule encoded_safe)+
  have tr: "trim written = written"
  proof (cases written)
    case Nil
    then show ?thesis by (simp add: trim_def)
  next
    case (Cons x xs)
    then have "hd written \<in> set written" "last written \<in> set written" by simp_all
    with safe have "hd written \<noteq> CHR '' ''" "last written \<noteq> CHR '' ''"
      "hd written \<noteq> char_of (9 :: nat)" "last written \<noteq> char_of (9 :: nat)" by metis+
    then have "(of_char (hd written) :: nat) \<noteq> 9" "(of_char (last written) :: nat) \<noteq> 9"
      by (metis char_of_char)+
    with \<open>hd written \<noteq> CHR '' ''\<close> \<open>last written \<noteq> CHR '' ''\<close> show ?thesis
      by (intro trim_plain) simp
  qed
  have w: "set_document_cookie (''fides_consent='' @ written @ ''; path=/; max-age=31536000'') jar
           = jar1"
    using write_cookie[OF safe(1) tr, of jar] by (simp add: jar1_def)
  have upd: "updateConsentCookie b jar = Inr jar1"
    using g assms(4,5) assign w by (simp add: updateConsentCookie_def written_def)
  have j1: "jar1 = jar_put ''fides_consent'' (encodeCookie (JSON_stringify record1)) jar"
    by (simp only: jar1_def written_def)
  have ok1: "jar_ok jar1"
    unfolding jar1_def using assms(1) name_facts safe(1) by (intro jar_put_ok) simp_all
  have m1: "map_of jar1 ''fides_consent'' = Some written"
    unfolding jar1_def by (rule jar_put_map_of)
  have d1: "decodeCookie written = Inr (JSON_stringify record1)"
    unfolding written_def decodeCookie_def encodeCookie_def by (rule decode_encode)
  have g1: "getCookie ''fides_consent'' jar1 = Inr (Some (JSON_stringify record1))"
    using getCookie_stored[OF ok1 m1] d1 by simp
  have c1: "member record1 ''consent'' = Inr (JObj flags1)"
    unfolding record1_def kvs1_def by (simp add: obj_put_lookup names_not_indices)
  have f1: "member (JObj flags1) ''advertising_and_email_signup'' = Inr (JBool b)"
    unfolding flags1_def by (simp add: obj_put_lookup names_not_indices)
  have f2: "\<forall>k. k \<noteq> ''advertising_and_email_signup''
                \<longrightarrow> member (JObj flags1) k = member (JObj flags) k"
    unfolding flags1_def by (simp add: obj_put_lookup names_not_indices)
  have r2: "\<forall>k. k \<noteq> ''consent'' \<longrightarrow> member record1 k = member record k"
    unfolding record1_def kvs1_def r by (simp add: obj_put_lookup names_not_indices)
  have keys: "\<exists>kvs kvs1. record = JObj kvs \<and> record1 = JObj kvs1 \<and> map fst kvs1 = map fst kvs"
    by (rule exI[of _ kvs], rule exI[of _ kvs1])
       (simp add: r record1_def kv1 map_update_keys_comp)
  have reload: "wf_json record \<longrightarrow>
               setOrCheckFidesConsentCookie uuid now1 now2 jar1 = Inr (record1, jar1)"
  proof
    assume wfr: "wf_json record"
    with r have wk: "wf_members kvs" and dk: "distinct (map fst kvs)" by simp_all
    from wf_members_value[OF wk c] have wf: "wf_members flags" and df: "distinct (map fst flags)"
      by simp_all
    have wf1: "wf_json (JObj flags1)"
      unfolding flags1_def using obj_put_wf[OF wf df names_not_indices(2), of "JBool b"] by simp
    have wr: "wf_json record1"
      unfolding record1_def using wk dk wf1 by (simp add: kv1 map_update_wf map_update_keys_comp)
    obtain cs where sh: "JSON_stringify record1 = CHR ''{'' # cs"
      unfolding record1_def using stringify_object_shape by blast
    have p1: "JSON_parse (JSON_stringify record1) = Inr record1"
      by (rule JSON_parse_stringify[OF wr])
    show "setOrCheckFidesConsentCookie uuid now1 now2 jar1 = Inr (record1, jar1)"
      using g1 p1 unfolding sh by (simp add: setOrCheckFidesConsentCookie_def)
  qed
  show ?thesis
    by (rule exI[of _ record1], rule exI[of _ flags1], rule exI[of _ jar1], intro conjI)
       (rule upd, rule j1, rule g1, rule c1, rule f1, rule f2, rule r2, rule keys, rule reload)
qed

theorem updateConsentCookie_frame_witness:
  "jar_ok example_jar
   \<and> getCookie ''fides_consent'' example_jar = Inr (Some (JSON_stringify example_record))
   \<and> (\<exists>record1 flags1 jar1.
         updateConsentCookie True example_jar = Inr jar1
       \<and> getCookie ''fides_consent'' jar1 = Inr (Some (JSON_stringify record1))
       \<and> member record1 ''consent'' = Inr (JObj flags1)
       \<and> member (JObj flags1) ''advertising_and_email_signup'' = Inr (JBool True)
       \<and> member (JObj flags1) ''analytics'' = Inr (JBool True)
       \<and> member record1 ''identity'' = Inr (JObj [(''fides_user_device_id'', JStr ''1b9d-4bed'')])
       \<and> member record1 ''note'' = Inr (JArr [JNum 7, JStr ''a;b=c %'', JNull])
       \<and> setOrCheckFidesConsentCookie ''ffff-0000'' ''2025'' ''2025'' jar1 = Inr (record1, jar1))"
proof -
  let ?raw = "encodeCookie (JSON_stringify example_record)"
  let ?flags = "[(''advertising_and_email_signup'', JBool False), (''analytics'', JBool True)]"
  have m: "map_of example_jar ''fides_consent'' = Some ?raw" by (simp add: example_jar_def)
  have d: "decodeCookie ?raw = Inr (JSON_stringify example_record)"
    unfolding decodeCookie_def encodeCookie_def by (rule decode_encode)
  have ne: "JSON_stringify example_record \<noteq> []" by (simp add: example_record_def)
  have p: "JSON_parse (JSON_stringify example_record) = Inr example_record"
    by (rule JSON_parse_stringify[OF example_record_wf])
  have c: "member example_record ''consent'' = Inr (JObj ?flags)"
    by (simp add: example_record_def)
  have g: "getCookie ''fides_consent'' example_jar = Inr (Some (JSON_stringify example_record))"
    using getCookie_stored[OF example_jar_ok m] d by simp
  from updateConsentCookie_frame[OF example_jar_ok m d ne p c,
      of True "''ffff-0000''" "''2025''" "''2025''"]
  obtain record1 flags1 jar1 where
    u: "updateConsentCookie True example_jar = Inr jar1"
    and g1: "getCookie ''fides_consent'' jar1 = Inr (Some (JSON_stringify record1))"
    and c1: "member record1 ''consent'' = Inr (JObj flags1)"
    and f1: "member (JObj flags1) ''advertising_and_email_signup'' = Inr (JBool True)"
    and f2: "\<forall>k. k \<noteq> ''advertising_and_email_signup''
                \<longrightarrow> member (JObj flags1) k = member (JObj ?flags) k"
    and r2: "\<forall>k. k \<noteq> ''consent'' \<longrightarrow> member record1 k = member example_record k"
    and re: "wf_json example_record \<longrightarrow>
               setOrCheckFidesConsentCookie ''ffff-0000'' ''2025'' ''2025'' jar1
                 = Inr (record1, jar1)"
    by blast
  from f2 have a: "member (JObj flags1) ''analytics'' = Inr (JBool True)" by simp
  from r2 have i: "member record1 ''identity''
                     = Inr (JObj [(''fides_user_device_id'', JStr ''1b9d-4bed'')])"
    by (simp add: example_record_def)
  from r2 have n: "member record1 ''note'' = Inr (JArr [JNum 7, JStr ''a;b=c %'', JNull])"
    by (simp add: example_record_def)
  from re example_record_wf
  have l: "setOrCheckFidesConsentCookie ''ffff-0000'' ''2025'' ''2025'' jar1 = Inr (record1, jar1)"
    by simp
  from u g1 c1 f1 a i n l
  have "\<exists>record1 flags1 jar1.
         updateConsentCookie True example_jar = Inr jar1
       \<and> getCookie ''fides_consent'' jar1 = Inr (Some (JSON_stringify record1))
       \<and> member record1 ''consent'' = Inr (JObj flags1)
       \<and> member (JObj flags1) ''advertising_and_email_signup'' = Inr (JBool True)
       \<and> member (JObj flags1) ''analytics'' = Inr (JBool True)
       \<and> member record1 ''identity'' = Inr (JObj [(''fides_user_device_id'', JStr ''1b9d-4bed'')])
       \<and> member record1 ''note'' = Inr (JArr [JNum 7, JStr ''a;b=c %'', JNull])
       \<and> setOrCheckFidesConsentCookie ''ffff-0000'' ''2025'' ''2025'' jar1 = Inr (record1, jar1)"
    by blast
  with example_jar_ok g show ?thesis by (intro conjI)
qed

end
